theory Spec2Isabelle
  imports Main "HOL-Library.Product_Lexorder" "HOL-Library.Multiset"
begin

section \<open>Rate limiter (class RateLimiter of the API service layer)\<close>

text \<open>
  The limiter object holds \<open>maxRequests\<close>, \<open>windowMs\<close> and the array \<open>requests\<close> of
  timestamps (milliseconds, as returned by \<open>Date.now()\<close>). Every method reads the clock
  once; the reading is the argument \<open>now\<close>. \<open>StorageUtils.set\<close> catches every exception
  of the persistence layer and its result is discarded by the limiter, so the persisted copy
  never influences what a method returns; the model keeps the in-memory object only.
\<close>

record RateLimiter =
  maxRequests :: int
  windowMs :: int
  requests :: "int list"

record RateConfig =
  cfg_requests :: int
  cfg_window :: int

definition cleanOldRequests :: "int \<Rightarrow> RateLimiter \<Rightarrow> RateLimiter" where
  "cleanOldRequests now rl =
     rl\<lparr>requests := filter (\<lambda>timestamp. now - timestamp < windowMs rl) (requests rl)\<rparr>"

text \<open>The constructor: \<open>stored\<close> is what \<open>StorageUtils.get('rate_limiter_requests', [])\<close> yields.\<close>

definition new_RateLimiter :: "int \<Rightarrow> RateConfig \<Rightarrow> int list \<Rightarrow> RateLimiter" where
  "new_RateLimiter now config stored =
     cleanOldRequests now
       \<lparr>maxRequests = cfg_requests config, windowMs = cfg_window config, requests = stored\<rparr>"

definition canMakeRequest :: "int \<Rightarrow> RateLimiter \<Rightarrow> RateLimiter \<times> bool" where
  "canMakeRequest now rl =
     (let rl' = cleanOldRequests now rl
      in (rl', int (length (requests rl')) < maxRequests rl'))"

definition recordRequest :: "int \<Rightarrow> RateLimiter \<Rightarrow> RateLimiter" where
  "recordRequest now rl = rl\<lparr>requests := requests rl @ [now]\<rparr>"

text \<open>\<open>Math.min(...xs)\<close> on a non-empty array.\<close>

fun math_min :: "int \<Rightarrow> int list \<Rightarrow> int" where
  "math_min x [] = x"
| "math_min x (y # ys) = math_min (min x y) ys"

definition getTimeUntilReset :: "int \<Rightarrow> RateLimiter \<Rightarrow> int" where
  "getTimeUntilReset now rl =
     (case requests rl of
        [] \<Rightarrow> 0
      | x # xs \<Rightarrow>
          (let oldestRequest = math_min x xs;
               timeUntilReset = windowMs rl - (now - oldestRequest)
           in max 0 timeUntilReset))"

definition getRemainingRequests :: "int \<Rightarrow> RateLimiter \<Rightarrow> RateLimiter \<times> int" where
  "getRemainingRequests now rl =
     (let rl' = cleanOldRequests now rl
      in (rl', max 0 (maxRequests rl' - int (length (requests rl')))))"

text \<open>
  \<open>getTimeUntilReset\<close> as the specification words it: prune; if no timestamp is left the
  result is 0; otherwise it is \<open>windowMs - (now - oldestTimestamp)\<close>, floored at 0.
\<close>

definition getTimeUntilReset_spec :: "int \<Rightarrow> RateLimiter \<Rightarrow> int" where
  "getTimeUntilReset_spec now rl =
     (let pruned = filter (\<lambda>t. now - t < windowMs rl) (requests rl)
      in if pruned = [] then 0
         else max 0 (windowMs rl - (now - Min (set pruned))))"

section \<open>Bounded priority cache (class AdvancedCacheManager)\<close>

subsection \<open>Values, entries and the persistent store\<close>

text \<open>
  A value handed to the cache is observed only through \<open>JSON.stringify\<close>: either it has a
  JSON text (kept as its UTF-8 bytes), or serialising it throws a \<open>TypeError\<close> (a cyclic
  object, a BigInt).
\<close>

datatype jsdata = Json string | Unserializable

datatype js_error = TypeError | QuotaExceededError

record cacheEntry =
  data :: jsdata
  timestamp :: int
  expires :: int
  priority :: int
  size_bytes :: nat
  version :: string
  tags :: jsdata
  metadata :: jsdata
  lastAccessed :: "int option"

text \<open>
  A string held by \<open>localStorage\<close> is observed through its byte length
  (\<open>new Blob([value]).size\<close>) and through \<open>JSON.parse\<close>, which either yields an entry or
  throws. \<open>Parsed n e\<close> is a string of \<open>n\<close> bytes that parses to the entry \<open>e\<close>;
  \<open>Unparsable n\<close> is a string of \<open>n\<close> bytes on which \<open>JSON.parse\<close> throws (the empty
  string, the only falsy string, is \<open>Unparsable 0\<close>); \<open>Null_text n\<close> is a string of \<open>n\<close>
  bytes that parses to \<open>null\<close>, so that \<open>JSON.parse\<close> succeeds and the first read of a field
  throws. Strings that parse to other JSON values are not part of the model.
\<close>

datatype stored = Parsed nat cacheEntry | Unparsable nat | Null_text nat

text \<open>
  \<open>localStorage\<close> is the list of its key/value pairs in the order of \<open>localStorage.key(i)\<close>;
  writing an existing key replaces its value in place, writing a new key appends, removing a
  key closes the gap.
\<close>

type_synonym localStorage = "(string \<times> stored) list"

text \<open>
  What the object and its surroundings fix: the byte budget \<open>maxCacheSize\<close>
  (\<open>50 * 1024 * 1024\<close> in the constructor), the byte length \<open>entryBytes e\<close> of
  \<open>JSON.stringify(e)\<close>, and the persistence layer's decision \<open>accepts st k v\<close> whether
  \<open>setItem(k, v)\<close> on store \<open>st\<close> fits its quota (otherwise it throws
  \<open>QuotaExceededError\<close>).
\<close>

record env =
  maxCacheSize :: nat
  entryBytes :: "cacheEntry \<Rightarrow> nat"
  accepts :: "localStorage \<Rightarrow> string \<Rightarrow> stored \<Rightarrow> bool"

definition getItem :: "localStorage \<Rightarrow> string \<Rightarrow> stored option" where
  "getItem st k = map_of st k"

definition removeItem :: "localStorage \<Rightarrow> string \<Rightarrow> localStorage" where
  "removeItem st k = filter (\<lambda>kv. fst kv \<noteq> k) st"

fun put :: "localStorage \<Rightarrow> string \<Rightarrow> stored \<Rightarrow> localStorage" where
  "put [] k v = [(k, v)]"
| "put ((k', v') # st) k v = (if k' = k then (k, v) # st else (k', v') # put st k v)"

definition setItem :: "env \<Rightarrow> localStorage \<Rightarrow> string \<Rightarrow> stored \<Rightarrow> js_error + localStorage" where
  "setItem ev st k v = (if accepts ev st k v then Inr (put st k v) else Inl QuotaExceededError)"

subsection \<open>Strings\<close>

definition startsWith :: "string \<Rightarrow> string \<Rightarrow> bool" where
  "startsWith s p = (take (length p) s = p)"

fun includes_str :: "string \<Rightarrow> string \<Rightarrow> bool" where
  "includes_str [] p = (p = [])"
| "includes_str (c # cs) p = (startsWith (c # cs) p \<or> includes_str cs p)"

definition cachePrefix :: string where
  "cachePrefix = ''cosmos_connect_''"

definition cachePriorities :: "(string \<times> int) list" where
  "cachePriorities =
     [(''user_preferences'', 100), (''favorites'', 90), (''recent_searches'', 80),
      (''apod_data'', 70), (''mars_weather'', 60), (''asteroids'', 50),
      (''space_weather'', 40), (''rover_photos'', 30), (''exoplanets'', 20)]"

subsection \<open>Options and JavaScript defaulting\<close>

text \<open>
  An absent option is \<open>None\<close>. \<open>a || b\<close> yields \<open>b\<close> when \<open>a\<close> is falsy: \<open>undefined\<close>, the
  number 0, the empty string. A value supplied for tags or metadata is observed through its
  truthiness and through \<open>JSON.stringify\<close>: \<open>Truthy d\<close> is a truthy value (an array, an
  object) and \<open>Falsy d\<close> a falsy one (\<open>0\<close>, \<open>null\<close>, \<open>''\<close>, \<open>0n\<close>), each with what
  serialising it gives.
\<close>

datatype supplied = Truthy jsdata | Falsy jsdata

record options =
  opt_expires :: "int option"
  opt_ttl :: "int option"
  opt_priority :: "int option"
  opt_version :: "string option"
  opt_tags :: "supplied option"
  opt_metadata :: "supplied option"

definition or_number :: "int option \<Rightarrow> int \<Rightarrow> int" where
  "or_number a b = (case a of None \<Rightarrow> b | Some n \<Rightarrow> if n \<noteq> 0 then n else b)"

definition or_str :: "string option \<Rightarrow> string \<Rightarrow> string" where
  "or_str a b = (case a of None \<Rightarrow> b | Some s \<Rightarrow> if s \<noteq> [] then s else b)"

definition or_obj :: "supplied option \<Rightarrow> jsdata \<Rightarrow> jsdata" where
  "or_obj a b = (case a of None \<Rightarrow> b | Some (Truthy d) \<Rightarrow> d | Some (Falsy d) \<Rightarrow> b)"

definition no_options :: options where
  "no_options = \<lparr>opt_expires = None, opt_ttl = None, opt_priority = None,
                  opt_version = None, opt_tags = None, opt_metadata = None\<rparr>"

subsection \<open>Numbers\<close>

text \<open>
  The numbers of the cache are integers: clock readings, durations, priorities, byte counts.
  JavaScript holds them as doubles, where every integer of magnitude up to \<open>2 ^ 53\<close> is
  exact. The one sum that a caller-supplied number can take beyond that is
  \<open>Date.now() + ttl\<close> in \<open>set\<close>; it is rounded as a double, to the nearest multiple of
  the unit of its binade, ties to the even multiple (below the overflow threshold of doubles).
  \<open>bitlen n\<close> is the number of binary digits of \<open>n\<close>. A clock reading is a time value, at
  most 8.64e15 in magnitude.
\<close>

fun bitlen :: "nat \<Rightarrow> nat" where
  "bitlen n = (if n = 0 then 0 else Suc (bitlen (n div 2)))"

declare bitlen.simps [simp del]

definition round_double :: "int \<Rightarrow> int" where
  "round_double x =
     (if \<bar>x\<bar> \<le> 2 ^ 53 then x
      else
        (let k = bitlen (nat \<bar>x\<bar>) - 53;
             u = 2 ^ k;
             q = \<bar>x\<bar> div u;
             r = \<bar>x\<bar> mod u;
             m = (if 2 * r > u \<or> (2 * r = u \<and> odd q) then q + 1 else q)
         in sgn x * (m * u)))"

definition js_add :: "int \<Rightarrow> int \<Rightarrow> int" where
  "js_add a b = round_double (a + b)"

definition time_value :: "int \<Rightarrow> bool" where
  "time_value t = (\<bar>t\<bar> \<le> 8640000000000000)"

subsection \<open>Operations\<close>

fun getCachePriority_loop :: "(string \<times> int) list \<Rightarrow> string \<Rightarrow> int" where
  "getCachePriority_loop [] key = 10"
| "getCachePriority_loop ((pattern, pr) # rest) key =
     (if includes_str key pattern then pr else getCachePriority_loop rest key)"

definition getCachePriority :: "string \<Rightarrow> int" where
  "getCachePriority key = getCachePriority_loop cachePriorities key"

definition calculateSize :: "jsdata \<Rightarrow> js_error + nat" where
  "calculateSize d = (case d of Json s \<Rightarrow> Inr (length s) | Unserializable \<Rightarrow> Inl TypeError)"

text \<open>\<open>JSON.stringify(cacheEntry)\<close>: throws when one of the values inside cannot be serialised.\<close>

definition stringify_entry :: "env \<Rightarrow> cacheEntry \<Rightarrow> js_error + stored" where
  "stringify_entry ev e =
     (if data e = Unserializable \<or> tags e = Unserializable \<or> metadata e = Unserializable
      then Inl TypeError
      else Inr (Parsed (entryBytes ev e) e))"

text \<open>The statement \<open>localStorage.setItem(this.cachePrefix + key, JSON.stringify(cacheEntry))\<close>.\<close>

definition writeEntry :: "env \<Rightarrow> localStorage \<Rightarrow> string \<Rightarrow> cacheEntry \<Rightarrow> js_error + localStorage" where
  "writeEntry ev st key e =
     (case stringify_entry ev e of
        Inl err \<Rightarrow> Inl err
      | Inr v \<Rightarrow> setItem ev st (cachePrefix @ key) v)"

definition delete :: "localStorage \<Rightarrow> string \<Rightarrow> localStorage" where
  "delete st key = removeItem st (cachePrefix @ key)"

record item =
  it_key :: string
  it_size :: nat
  it_expires :: int
  it_priority :: int
  it_lastAccessed :: int

text \<open>
  The object returned by \<open>getStorageInfo\<close>, without \<open>utilizationPercent\<close> (the quotient
  of \<open>totalSize\<close> and \<open>maxSize\<close>, which no operation of the cache reads).
\<close>

record storageInfo =
  totalSize :: nat
  itemCount :: nat
  items :: "item list"
  maxSize :: nat

text \<open>
  The listing entry of a stored cache entry. \<open>key.replace(this.cachePrefix, '')\<close> is applied
  to keys that start with the prefix only, where it removes that leading occurrence.
\<close>

definition mk_item :: "string \<Rightarrow> nat \<Rightarrow> cacheEntry \<Rightarrow> item" where
  "mk_item key n e =
     \<lparr>it_key = drop (length cachePrefix) key,
      it_size = n,
      it_expires = expires e,
      it_priority = priority e,
      it_lastAccessed = or_number (lastAccessed e) (timestamp e)\<rparr>"

text \<open>
  The scan of \<open>getStorageInfo\<close>: index \<open>i\<close> runs while \<open>i < localStorage.length\<close>, and a
  corrupted entry is removed from the store during the scan (so the pair that moves into
  position \<open>i\<close> is not visited). The bytes are added and the count is raised before the
  fields of the parsed value are read: a text that parses to \<open>null\<close> is counted, then
  removed, and not listed.
\<close>

function getStorageInfo_loop ::
  "nat \<Rightarrow> localStorage \<Rightarrow> nat \<times> nat \<times> item list \<Rightarrow> (nat \<times> nat \<times> item list) \<times> localStorage" where
  "getStorageInfo_loop i st acc =
     (if i < length st then
        (let key = fst (st ! i) in
         if startsWith key cachePrefix then
           (case snd (st ! i) of
              Parsed n e \<Rightarrow>
                (case acc of (tot, cnt, its) \<Rightarrow>
                   getStorageInfo_loop (i + 1) st (tot + n, cnt + 1, its @ [mk_item key n e]))
            | Unparsable n \<Rightarrow> getStorageInfo_loop (i + 1) (removeItem st key) acc
            | Null_text n \<Rightarrow>
                (case acc of (tot, cnt, its) \<Rightarrow>
                   getStorageInfo_loop (i + 1) (removeItem st key) (tot + n, cnt + 1, its)))
         else getStorageInfo_loop (i + 1) st acc)
      else (acc, st))"
  by pat_completeness auto
termination
proof (relation "measure (\<lambda>(i, st, acc). length st - i)")
  show "wf (measure (\<lambda>(i, st, acc). length st - i))" by simp
next
  fix i :: nat and st :: localStorage and acc :: "nat \<times> nat \<times> item list" and key
  assume "i < length st" "key = fst (st ! i)"
  moreover have "length (removeItem st key) \<le> length st"
    by (simp add: removeItem_def)
  ultimately show "((i + 1, removeItem st key, acc), (i, st, acc))
      \<in> measure (\<lambda>(i, st, acc). length st - i)"
    by simp
next
  fix i :: nat and st :: localStorage and acc acc' :: "nat \<times> nat \<times> item list" and key
  assume "i < length st" "key = fst (st ! i)"
  moreover have "length (removeItem st key) \<le> length st"
    by (simp add: removeItem_def)
  ultimately show "((i + 1, removeItem st key, acc'), (i, st, acc))
      \<in> measure (\<lambda>(i, st, acc). length st - i)"
    by simp
qed auto

declare getStorageInfo_loop.simps [simp del]

definition getStorageInfo :: "env \<Rightarrow> localStorage \<Rightarrow> storageInfo \<times> localStorage" where
  "getStorageInfo ev st =
     (case getStorageInfo_loop 0 st (0, 0, []) of
        ((tot, cnt, its), st') \<Rightarrow>
          (\<lparr>totalSize = tot, itemCount = cnt,
            items = sort_key (\<lambda>a. - it_priority a) its,
            maxSize = maxCacheSize ev\<rparr>, st'))"

text \<open>
  The removal loop of \<open>enforceStorageLimit\<close>. The source compares \<open>freedSize\<close> with
  \<open>targetReduction = totalSize - maxCacheSize * 0.8\<close>; both sides are multiplied by 5 here,
  which keeps the comparison in the integers.
\<close>

fun enforce_loop :: "int \<Rightarrow> item list \<Rightarrow> nat \<Rightarrow> localStorage \<Rightarrow> nat \<times> localStorage" where
  "enforce_loop target5 [] freedSize st = (freedSize, st)"
| "enforce_loop target5 (it # rest) freedSize st =
     (if 5 * int freedSize \<ge> target5 then (freedSize, st)
      else enforce_loop target5 rest (freedSize + it_size it)
             (removeItem st (cachePrefix @ it_key it)))"

definition enforceStorageLimit :: "env \<Rightarrow> localStorage \<Rightarrow> localStorage" where
  "enforceStorageLimit ev st =
     (case getStorageInfo ev st of
        (info, st1) \<Rightarrow>
          if totalSize info \<le> maxCacheSize ev then st1
          else
            (let itemsForRemoval = sort_key (\<lambda>a. (it_priority a, it_lastAccessed a)) (items info);
                 target5 = 5 * int (totalSize info) - 4 * int (maxCacheSize ev)
             in snd (enforce_loop target5 itemsForRemoval 0 st1)))"

definition clearLowPriorityCache :: "env \<Rightarrow> localStorage \<Rightarrow> localStorage" where
  "clearLowPriorityCache ev st =
     (case getStorageInfo ev st of
        (info, st1) \<Rightarrow>
          (let lowPriorityItems = filter (\<lambda>a. it_priority a < 50) (items info)
           in fold (\<lambda>a s. removeItem s (cachePrefix @ it_key a)) lowPriorityItems st1))"

text \<open>
  The entry built by \<open>set\<close>; \<open>sz\<close> is the result of \<open>calculateSize(data)\<close>. \<open>set\<close> reads
  the clock twice: \<open>now1\<close> is the reading stored as \<open>timestamp\<close>, \<open>now2\<close> the later
  reading from which \<open>expires\<close> is computed.
\<close>

definition new_entry ::
  "int \<Rightarrow> int \<Rightarrow> string \<Rightarrow> jsdata \<Rightarrow> nat \<Rightarrow> options \<Rightarrow> cacheEntry" where
  "new_entry now1 now2 key d sz opts =
     \<lparr>data = d,
      timestamp = now1,
      expires = or_number (opt_expires opts) (js_add now2 (or_number (opt_ttl opts) 3600000)),
      priority = or_number (opt_priority opts) (getCachePriority key),
      size_bytes = sz,
      version = or_str (opt_version opts) ''1.0'',
      tags = or_obj (opt_tags opts) (Json ''[]''),
      metadata = or_obj (opt_metadata opts) (Json ''{}''),
      lastAccessed = None\<rparr>"

text \<open>
  \<open>set(key, data, options)\<close>. The result is the thrown exception (\<open>Inl\<close>) or the returned
  boolean, together with the store the call leaves behind. The entry is built, and
  \<open>calculateSize\<close> run, before the \<open>try\<close> block is entered.
\<close>

definition set_cache ::
  "env \<Rightarrow> int \<Rightarrow> int \<Rightarrow> localStorage \<Rightarrow> string \<Rightarrow> jsdata \<Rightarrow> options
     \<Rightarrow> (js_error + bool) \<times> localStorage" where
  "set_cache ev now1 now2 st key d opts =
     (case calculateSize d of
        Inl err \<Rightarrow> (Inl err, st)
      | Inr sz \<Rightarrow>
          (let cacheEntry = new_entry now1 now2 key d sz opts in
           case writeEntry ev st key cacheEntry of
             Inr st1 \<Rightarrow> (Inr True, enforceStorageLimit ev st1)
           | Inl error \<Rightarrow>
               (let st2 = clearLowPriorityCache ev st in
                case writeEntry ev st2 key cacheEntry of
                  Inr st3 \<Rightarrow> (Inr True, st3)
                | Inl retryError \<Rightarrow> (Inr False, st2))))"

text \<open>
  \<open>get(key, options)\<close>: \<open>None\<close> is \<open>null\<close>. \<open>ver\<close> is \<open>options.version\<close>. Everything
  runs inside one \<open>try\<close>; its handler deletes the key and returns \<open>null\<close>. \<open>get\<close> reads
  the clock twice: \<open>now\<close> is the reading of the expiry test, \<open>now2\<close> the later reading
  stored as \<open>lastAccessed\<close>.
\<close>

definition get ::
  "env \<Rightarrow> int \<Rightarrow> int \<Rightarrow> localStorage \<Rightarrow> string \<Rightarrow> string option
     \<Rightarrow> jsdata option \<times> localStorage" where
  "get ev now now2 st key ver =
     (case getItem st (cachePrefix @ key) of
        None \<Rightarrow> (None, st)
      | Some (Unparsable n) \<Rightarrow> (if n = 0 then (None, st) else (None, delete st key))
      | Some (Null_text n) \<Rightarrow> (None, delete st key)
      | Some (Parsed n e) \<Rightarrow>
          if now > expires e then (None, delete st key)
          else if or_str ver [] \<noteq> [] \<and> version e \<noteq> or_str ver [] then (None, delete st key)
          else
            (case writeEntry ev st key (e\<lparr>lastAccessed := Some now2\<rparr>) of
               Inr st' \<Rightarrow> (Some (data e), st')
             | Inl error \<Rightarrow> (None, delete st key)))"

text \<open>
  \<open>clearCache(pattern)\<close>: the keys are collected first and removed afterwards; the pattern
  is tested on the full storage key.
\<close>

definition clearCache :: "localStorage \<Rightarrow> string option \<Rightarrow> nat \<times> localStorage" where
  "clearCache st pattern =
     (let keysToDelete =
            filter (\<lambda>key. startsWith key cachePrefix
                          \<and> (or_str pattern [] = [] \<or> includes_str key (or_str pattern [])))
                   (map fst st)
      in (length keysToDelete, fold (\<lambda>key s. removeItem s key) keysToDelete st))"


subsection \<open>Notions used to state the results\<close>

text \<open>
  The listing entries of the cache entries of a store, in store order; the store is
  \<open>all_parse\<close> when every value under a prefixed key parses to an entry;
  \<open>total_bytes\<close> is the sum of the serialised sizes of the cache entries.
\<close>

fun cache_items :: "localStorage \<Rightarrow> item list" where
  "cache_items [] = []"
| "cache_items ((k, v) # st) =
     (if startsWith k cachePrefix then
        (case v of Parsed n e \<Rightarrow> mk_item k n e # cache_items st
                 | Unparsable n \<Rightarrow> cache_items st
                 | Null_text n \<Rightarrow> cache_items st)
      else cache_items st)"

definition all_parse :: "localStorage \<Rightarrow> bool" where
  "all_parse st =
     list_all (\<lambda>kv. startsWith (fst kv) cachePrefix \<longrightarrow>
                 (case snd kv of Parsed n e \<Rightarrow> True | Unparsable n \<Rightarrow> False
                               | Null_text n \<Rightarrow> False)) st"

definition total_bytes :: "localStorage \<Rightarrow> nat" where
  "total_bytes st = sum_list (map it_size (cache_items st))"

definition low_priority :: "string \<times> stored \<Rightarrow> bool" where
  "low_priority kv =
     (startsWith (fst kv) cachePrefix
      \<and> (case snd kv of Parsed n e \<Rightarrow> priority e < 50 | Unparsable n \<Rightarrow> False
                        | Null_text n \<Rightarrow> False))"

subsection \<open>Concrete stores for the closed instances\<close>

definition demo_env :: env where
  "demo_env = \<lparr>maxCacheSize = 1000, entryBytes = (\<lambda>e. 600), accepts = (\<lambda>st k v. True)\<rparr>"

definition full_env :: env where
  "full_env = \<lparr>maxCacheSize = 1000, entryBytes = (\<lambda>e. 600), accepts = (\<lambda>st k v. False)\<rparr>"

text \<open>A persistence layer that holds at most two pairs.\<close>

definition two_pair_env :: env where
  "two_pair_env = \<lparr>maxCacheSize = 1000, entryBytes = (\<lambda>e. 600),
                    accepts = (\<lambda>st k v. length (put st k v) \<le> 2)\<rparr>"

definition demo_entry :: "int \<Rightarrow> int \<Rightarrow> cacheEntry" where
  "demo_entry pr ex =
     \<lparr>data = Json ''{}'', timestamp = 0, expires = ex, priority = pr, size_bytes = 2,
      version = ''1.0'', tags = Json ''[]'', metadata = Json ''{}'', lastAccessed = None\<rparr>"

text \<open>
  The number of items the removal loop of \<open>enforceStorageLimit\<close> takes from the front of
  its list, and the storage key of a listed item.
\<close>

fun evict_count :: "int \<Rightarrow> item list \<Rightarrow> nat \<Rightarrow> nat" where
  "evict_count target5 [] freedSize = 0"
| "evict_count target5 (it # rest) freedSize =
     (if 5 * int freedSize \<ge> target5 then 0
      else Suc (evict_count target5 rest (freedSize + it_size it)))"

definition storage_key :: "item \<Rightarrow> string" where
  "storage_key a = cachePrefix @ it_key a"

text \<open>
  The list that the removal loop walks on a store whose entries all parse: the listing of
  \<open>getStorageInfo\<close> (sorted by descending priority), sorted again by ascending
  (priority, lastAccessed); both sorts are stable.
\<close>

definition removal_order :: "localStorage \<Rightarrow> item list" where
  "removal_order st =
     sort_key (\<lambda>a. (it_priority a, it_lastAccessed a))
       (sort_key (\<lambda>a. - it_priority a) (cache_items st))"

section \<open>Rate limiter: results\<close>

text \<open>
  C6. \<open>canMakeRequest\<close> drops every timestamp \<open>t\<close> with \<open>now - t \<ge> windowMs\<close> and then
  answers whether fewer than \<open>maxRequests\<close> timestamps are left. With \<open>maxRequests = 3\<close> and
  \<open>windowMs = 1000\<close>, after three \<open>recordRequest\<close> calls at time 0 the answer is false at
  time 500 and true at time 1001.
\<close>

theorem canMakeRequest_sliding_window:
  "requests (fst (canMakeRequest now rl)) = filter (\<lambda>t. \<not> now - t \<ge> windowMs rl) (requests rl)
   \<and> snd (canMakeRequest now rl)
       = (int (length (requests (fst (canMakeRequest now rl)))) < maxRequests rl)
   \<and> (let rl0 = new_RateLimiter 0 \<lparr>cfg_requests = 3, cfg_window = 1000\<rparr> [];
           rl3 = recordRequest 0 (recordRequest 0 (recordRequest 0 rl0));
           r500 = canMakeRequest 500 rl3;
           r1001 = canMakeRequest 1001 (fst r500)
       in requests rl3 = [0, 0, 0] \<and> snd r500 = False \<and> snd r1001 = True
          \<and> snd (canMakeRequest 1001 rl3) = True)"
  by (simp add: canMakeRequest_def cleanOldRequests_def new_RateLimiter_def recordRequest_def
      Let_def not_le)

theorem canMakeRequest_sliding_window_witness:
  "snd (canMakeRequest 1000 \<lparr>maxRequests = 2, windowMs = 1000, requests = [0, 1, 500]\<rparr>) = False
   \<and> requests (fst (canMakeRequest 1000 \<lparr>maxRequests = 2, windowMs = 1000, requests = [0, 1, 500]\<rparr>))
       = [1, 500]"
  using canMakeRequest_sliding_window
    [of 1000 "\<lparr>maxRequests = 2, windowMs = 1000, requests = [0, 1, 500]\<rparr>"]
  by simp

text \<open>
  C3. The specification has \<open>getTimeUntilReset\<close> prune before it answers. The method does not
  call \<open>cleanOldRequests\<close> (its siblings \<open>canMakeRequest\<close> and \<open>getRemainingRequests\<close> do):
  after requests recorded at times 0 and 900 with a window of 1000, at time 1500 the stale
  timestamp 0 is the minimum, and the method answers 0 where the pruned computation answers 400.
\<close>

theorem getTimeUntilReset_stale_minimum:
  "(let rl = recordRequest 900 (recordRequest 0
               (new_RateLimiter 0 \<lparr>cfg_requests = 3, cfg_window = 1000\<rparr> []))
    in requests rl = [0, 900]
       \<and> getTimeUntilReset 1500 rl = 0
       \<and> getTimeUntilReset_spec 1500 rl = 400)"
  by (simp add: getTimeUntilReset_def getTimeUntilReset_spec_def cleanOldRequests_def
      new_RateLimiter_def recordRequest_def Let_def)

section \<open>Cache: the store and the scan\<close>

lemma all_parse_nth:
  "all_parse st \<Longrightarrow> i < length st \<Longrightarrow> startsWith (fst (st ! i)) cachePrefix
     \<Longrightarrow> \<exists>n e. snd (st ! i) = Parsed n e"
  by (cases "snd (st ! i)") (auto simp: all_parse_def list_all_length)

lemma cache_items_Cons:
  "cache_items (x # st) =
     (if startsWith (fst x) cachePrefix then
        (case snd x of Parsed n e \<Rightarrow> mk_item (fst x) n e # cache_items st
                     | Unparsable n \<Rightarrow> cache_items st
                     | Null_text n \<Rightarrow> cache_items st)
      else cache_items st)"
  by (cases x) (auto split: stored.splits)

lemma mk_item_sel [simp]:
  "it_size (mk_item k n e) = n"
  "it_priority (mk_item k n e) = priority e"
  "it_key (mk_item k n e) = drop (length cachePrefix) k"
  "it_lastAccessed (mk_item k n e) = or_number (lastAccessed e) (timestamp e)"
  by (simp_all add: mk_item_def)

lemma getStorageInfo_loop_all_parse:
  "all_parse st \<Longrightarrow>
   getStorageInfo_loop i st (t, c, its) =
     ((t + sum_list (map it_size (cache_items (drop i st))),
       c + length (cache_items (drop i st)),
       its @ cache_items (drop i st)), st)"
proof (induction i st "(t, c, its)" arbitrary: t c its rule: getStorageInfo_loop.induct)
  case (1 i st)
  show ?case
  proof (cases "i < length st")
    case False
    then show ?thesis by (simp add: getStorageInfo_loop.simps[of i st])
  next
    case True
    then have d: "cache_items (drop i st) = cache_items (st ! i # drop (Suc i) st)"
      by (simp add: Cons_nth_drop_Suc)
    show ?thesis
    proof (cases "startsWith (fst (st ! i)) cachePrefix")
      case False
      with True 1(4)[OF True refl False] 1(5) d show ?thesis
        by (simp add: getStorageInfo_loop.simps[of i st] cache_items_Cons)
    next
      case sw: True
      from all_parse_nth[OF 1(5) True sw] obtain n e where p: "snd (st ! i) = Parsed n e"
        by blast
      from 1(1)[OF True refl sw p refl refl] 1(5) True sw p d show ?thesis
        by (simp add: getStorageInfo_loop.simps[of i st] cache_items_Cons)
    qed
  qed
qed

lemma getItem_removeItem:
  "getItem (removeItem st k) k' = (if k' = k then None else getItem st k')"
  by (induction st) (auto simp: getItem_def removeItem_def)

lemma getItem_put: "getItem (put st k v) k' = (if k' = k then Some v else getItem st k')"
  by (induction st) (auto simp: getItem_def)

lemma keys_removeItem: "fst ` set (removeItem st k) = fst ` set st - {k}"
  by (auto simp: removeItem_def)

lemma fold_removeItem:
  "fold (\<lambda>k s. removeItem s k) ks st = filter (\<lambda>kv. fst kv \<notin> set ks) st"
proof (induction ks arbitrary: st)
  case Nil
  then show ?case by simp
next
  case (Cons k ks)
  have "filter (\<lambda>kv. fst kv \<notin> set ks) (removeItem st k)
          = filter (\<lambda>kv. fst kv \<notin> set (k # ks)) st"
    by (auto simp: removeItem_def intro: filter_cong)
  with Cons show ?case by simp
qed


text \<open>Every operation of the scan only removes pairs.\<close>

lemma getStorageInfo_loop_narrows:
  "getItem (snd (getStorageInfo_loop i st acc)) k = Some v \<Longrightarrow> getItem st k = Some v"
proof (induction i st acc rule: getStorageInfo_loop.induct)
  case (1 i st acc)
  show ?case
  proof (cases "i < length st")
    case False
    with 1(5) show ?thesis by (simp add: getStorageInfo_loop.simps[of i st])
  next
    case True
    show ?thesis
    proof (cases "startsWith (fst (st ! i)) cachePrefix")
      case False
      with True 1(5) have "getItem (snd (getStorageInfo_loop (i + 1) st acc)) k = Some v"
        by (simp add: getStorageInfo_loop.simps[of i st])
      with 1(4)[OF True refl False] show ?thesis by simp
    next
      case sw: True
      show ?thesis
      proof (cases "snd (st ! i)")
        case (Parsed n e)
        obtain t c its where acc: "acc = (t, c, its)" by (cases acc) auto
        from True sw Parsed acc 1(5)
        have "getItem (snd (getStorageInfo_loop (i + 1) st
                 (t + n, c + 1, its @ [mk_item (fst (st ! i)) n e]))) k = Some v"
          by (simp add: getStorageInfo_loop.simps[of i st])
        with 1(1)[OF True refl sw Parsed acc[symmetric] refl] show ?thesis by simp
      next
        case (Unparsable n)
        from True sw Unparsable 1(5)
        have "getItem (snd (getStorageInfo_loop (i + 1) (removeItem st (fst (st ! i))) acc)) k
                = Some v"
          by (simp add: getStorageInfo_loop.simps[of i st])
        with 1(2)[OF True refl sw Unparsable]
        have "getItem (removeItem st (fst (st ! i))) k = Some v" by simp
        then show ?thesis by (simp add: getItem_removeItem split: if_splits)
      next
        case (Null_text n)
        obtain t c its where acc: "acc = (t, c, its)" by (cases acc) auto
        from True sw Null_text acc 1(5)
        have "getItem (snd (getStorageInfo_loop (i + 1) (removeItem st (fst (st ! i)))
                 (t + n, c + 1, its))) k = Some v"
          by (simp add: getStorageInfo_loop.simps[of i st])
        with 1(3)[OF True refl sw Null_text acc[symmetric] refl]
        have "getItem (removeItem st (fst (st ! i))) k = Some v" by simp
        then show ?thesis by (simp add: getItem_removeItem split: if_splits)
      qed
    qed
  qed
qed

text \<open>Every listed item comes from a prefixed key of the scanned store.\<close>

lemma getStorageInfo_loop_items:
  "it \<in> set (snd (snd (fst (getStorageInfo_loop i st acc)))) \<Longrightarrow>
   it \<in> set (snd (snd acc))
   \<or> (\<exists>k \<in> fst ` set st. startsWith k cachePrefix \<and> it_key it = drop (length cachePrefix) k)"
proof (induction i st acc rule: getStorageInfo_loop.induct)
  case (1 i st acc)
  show ?case
  proof (cases "i < length st")
    case False
    with 1(5) show ?thesis by (simp add: getStorageInfo_loop.simps[of i st])
  next
    case True
    then have mem: "fst (st ! i) \<in> fst ` set st" by simp
    show ?thesis
    proof (cases "startsWith (fst (st ! i)) cachePrefix")
      case False
      with True 1(5)
      have "it \<in> set (snd (snd (fst (getStorageInfo_loop (i + 1) st acc))))"
        by (simp add: getStorageInfo_loop.simps[of i st])
      with 1(4)[OF True refl False] show ?thesis by simp
    next
      case sw: True
      show ?thesis
      proof (cases "snd (st ! i)")
        case (Parsed n e)
        obtain t c its where acc: "acc = (t, c, its)" by (cases acc) auto
        from True sw Parsed acc 1(5)
        have "it \<in> set (snd (snd (fst (getStorageInfo_loop (i + 1) st
                 (t + n, c + 1, its @ [mk_item (fst (st ! i)) n e])))))"
          by (simp add: getStorageInfo_loop.simps[of i st])
        with 1(1)[OF True refl sw Parsed acc[symmetric] refl]
        have "it \<in> set (its @ [mk_item (fst (st ! i)) n e])
              \<or> (\<exists>k \<in> fst ` set st. startsWith k cachePrefix
                    \<and> it_key it = drop (length cachePrefix) k)"
          by simp
        moreover have "it = mk_item (fst (st ! i)) n e \<Longrightarrow>
            (\<exists>k \<in> fst ` set st. startsWith k cachePrefix
                    \<and> it_key it = drop (length cachePrefix) k)"
          using sw mem by (intro bexI[of _ "fst (st ! i)"]) simp_all
        ultimately show ?thesis using acc by auto
      next
        case (Unparsable n)
        from True sw Unparsable 1(5)
        have "it \<in> set (snd (snd (fst
                (getStorageInfo_loop (i + 1) (removeItem st (fst (st ! i))) acc))))"
          by (simp add: getStorageInfo_loop.simps[of i st])
        with 1(2)[OF True refl sw Unparsable]
        have "it \<in> set (snd (snd acc))
              \<or> (\<exists>k \<in> fst ` set (removeItem st (fst (st ! i))). startsWith k cachePrefix
                    \<and> it_key it = drop (length cachePrefix) k)"
          by simp
        moreover have "fst ` set (removeItem st (fst (st ! i))) \<subseteq> fst ` set st"
          by (auto simp: removeItem_def)
        ultimately show ?thesis by blast
      next
        case (Null_text n)
        obtain t c its where acc: "acc = (t, c, its)" by (cases acc) auto
        from True sw Null_text acc 1(5)
        have "it \<in> set (snd (snd (fst
                (getStorageInfo_loop (i + 1) (removeItem st (fst (st ! i)))
                   (t + n, c + 1, its)))))"
          by (simp add: getStorageInfo_loop.simps[of i st])
        with 1(3)[OF True refl sw Null_text acc[symmetric] refl]
        have "it \<in> set its
              \<or> (\<exists>k \<in> fst ` set (removeItem st (fst (st ! i))). startsWith k cachePrefix
                    \<and> it_key it = drop (length cachePrefix) k)"
          by simp
        moreover have "fst ` set (removeItem st (fst (st ! i))) \<subseteq> fst ` set st"
          by (auto simp: removeItem_def)
        moreover have "snd (snd acc) = its" using acc by simp
        ultimately show ?thesis by blast
      qed
    qed
  qed
qed

lemma startsWith_append: "startsWith s p \<Longrightarrow> s = p @ drop (length p) s"
  by (metis append_take_drop_id startsWith_def)

lemma getStorageInfo_items_keys:
  assumes "it \<in> set (items (fst (getStorageInfo ev st)))"
  shows "cachePrefix @ it_key it \<in> fst ` set st"
proof -
  obtain t c its st' where l: "getStorageInfo_loop 0 st (0, 0, []) = ((t, c, its), st')"
    by (metis prod_cases3 surj_pair)
  with assms have "it \<in> set (snd (snd (fst (getStorageInfo_loop 0 st (0, 0, [])))))"
    by (simp add: getStorageInfo_def)
  from getStorageInfo_loop_items[OF this]
  obtain k where "k \<in> fst ` set st" "startsWith k cachePrefix"
      "it_key it = drop (length cachePrefix) k"
    by auto
  with startsWith_append[of k cachePrefix] show ?thesis by simp
qed

lemma getStorageInfo_narrows:
  "getItem (snd (getStorageInfo ev st)) k = Some v \<Longrightarrow> getItem st k = Some v"
proof -
  assume a: "getItem (snd (getStorageInfo ev st)) k = Some v"
  obtain t c its st' where l: "getStorageInfo_loop 0 st (0, 0, []) = ((t, c, its), st')"
    by (metis prod_cases3 surj_pair)
  with a have "getItem (snd (getStorageInfo_loop 0 st (0, 0, []))) k = Some v"
    by (simp add: getStorageInfo_def)
  then show ?thesis by (rule getStorageInfo_loop_narrows)
qed

text \<open>
  Without \<open>all_parse\<close> the scan can miss entries: removing the corrupted pair at index 0
  moves the next pair to index 0, and the scan goes on at index 1. The entry under \<open>y\<close> is
  neither counted nor listed.
\<close>

lemma getStorageInfo_skips_after_corrupt:
  "getStorageInfo demo_env
     [(cachePrefix @ ''x'', Unparsable 5), (cachePrefix @ ''y'', Parsed 700 (demo_entry 10 100))]
   = (\<lparr>totalSize = 0, itemCount = 0, items = [], maxSize = 1000\<rparr>,
      [(cachePrefix @ ''y'', Parsed 700 (demo_entry 10 100))])"
  by (simp add: getStorageInfo_def getStorageInfo_loop.simps removeItem_def demo_env_def
      Let_def startsWith_def)

text \<open>
  A text that parses to \<open>null\<close> is counted before the read of its fields throws: its bytes
  stay in \<open>totalSize\<close> and it stays in \<open>itemCount\<close>, although it is removed and not listed.
\<close>

lemma getStorageInfo_counts_null_text:
  "getStorageInfo demo_env [(cachePrefix @ ''x'', Null_text 4)]
   = (\<lparr>totalSize = 4, itemCount = 1, items = [], maxSize = 1000\<rparr>, [])"
  by (simp add: getStorageInfo_def getStorageInfo_loop.simps removeItem_def demo_env_def
      Let_def startsWith_def)

section \<open>Cache: results\<close>

text \<open>
  C5. When a stored entry is read at a time after its expiry timestamp, \<open>get\<close> returns
  \<open>null\<close>, the entry is removed from the store by that call, and the listing of a
  following \<open>getStorageInfo\<close> does not contain the key.
\<close>

theorem get_expired_miss:
  assumes "getItem st (cachePrefix @ key) = Some (Parsed n e)" and "now > expires e"
  shows "fst (get ev now now2 st key ver) = None
         \<and> getItem (snd (get ev now now2 st key ver)) (cachePrefix @ key) = None
         \<and> key \<notin> it_key ` set (items (fst (getStorageInfo ev (snd (get ev now now2 st key ver)))))"
proof -
  have g: "get ev now now2 st key ver = (None, removeItem st (cachePrefix @ key))"
    using assms by (simp add: get_def delete_def)
  have gone: "getItem (removeItem st (cachePrefix @ key)) (cachePrefix @ key) = None"
    by (simp add: getItem_removeItem)
  have "key \<notin> it_key ` set (items (fst (getStorageInfo ev (removeItem st (cachePrefix @ key)))))"
  proof
    assume "key \<in> it_key ` set (items (fst (getStorageInfo ev (removeItem st (cachePrefix @ key)))))"
    then obtain it where "it \<in> set (items (fst (getStorageInfo ev (removeItem st (cachePrefix @ key)))))"
        "it_key it = key" by auto
    from getStorageInfo_items_keys[OF this(1)] this(2)
    have "cachePrefix @ key \<in> fst ` set (removeItem st (cachePrefix @ key))" by simp
    then show False by (simp add: keys_removeItem)
  qed
  with g gone show ?thesis by simp
qed

theorem get_expired_miss_witness:
  "fst (get demo_env 200 201 [(cachePrefix @ ''apod'', Parsed 600 (demo_entry 70 100))]
          ''apod'' None)
     = None
   \<and> getItem (snd (get demo_env 200 201 [(cachePrefix @ ''apod'', Parsed 600 (demo_entry 70 100))]
                  ''apod'' None)) (cachePrefix @ ''apod'') = None
   \<and> ''apod'' \<notin> it_key ` set (items (fst (getStorageInfo demo_env
        (snd (get demo_env 200 201 [(cachePrefix @ ''apod'', Parsed 600 (demo_entry 70 100))]
               ''apod'' None)))))"
  using get_expired_miss
    [where st = "[(cachePrefix @ ''apod'', Parsed 600 (demo_entry 70 100))]" and key = "''apod''"
       and n = 600 and e = "demo_entry 70 100" and now = 200 and ev = demo_env and ?now2.0 = 201
       and ver = None]
  by (simp add: getItem_def demo_entry_def)

text \<open>
  C2. A value that cannot be serialised makes \<open>calculateSize\<close> throw while the entry is
  being built, before the \<open>try\<close> block of \<open>set\<close>: the \<open>TypeError\<close> leaves \<open>set\<close>, and
  no boolean is returned. A serialisation failure inside the \<open>try\<close> block (unserialisable
  metadata with a serialisable value) is caught and becomes \<open>false\<close>.
\<close>

theorem set_unserializable_escapes:
  "set_cache ev now1 now2 st key Unserializable opts = (Inl TypeError, st)
   \<and> (opt_metadata opts = Some (Truthy Unserializable) \<longrightarrow>
        fst (set_cache ev now1 now2 st key (Json s) opts) = Inr False)"
  by (simp add: set_cache_def calculateSize_def writeEntry_def stringify_entry_def
      new_entry_def or_obj_def Let_def)

theorem set_unserializable_escapes_witness:
  "set_cache demo_env 5 6 [] ''k'' Unserializable
       (no_options\<lparr>opt_metadata := Some (Truthy Unserializable)\<rparr>) = (Inl TypeError, [])
   \<and> fst (set_cache demo_env 5 6 [] ''k'' (Json ''1'')
            (no_options\<lparr>opt_metadata := Some (Truthy Unserializable)\<rparr>)) = Inr False"
  using set_unserializable_escapes
    [where ev = demo_env and ?now1.0 = 5 and ?now2.0 = 6 and st = "[]" and key = "''k''"
       and opts = "no_options\<lparr>opt_metadata := Some (Truthy Unserializable)\<rparr>" and s = "''1''"]
  by (simp add: no_options_def)

text \<open>
  C8. When \<open>get\<close> finds an entry that has not expired and whose version is accepted, and the
  write-back of the entry with its new \<open>lastAccessed\<close> throws, the handler deletes the entry
  and \<open>get\<close> returns \<open>null\<close>: the store afterwards is the store before without the key.
\<close>

theorem get_writeback_failure_deletes:
  assumes "getItem st (cachePrefix @ key) = Some (Parsed n e)"
    and "\<not> now > expires e"
    and "or_str ver [] = [] \<or> version e = or_str ver []"
    and "writeEntry ev st key (e\<lparr>lastAccessed := Some now2\<rparr>) = Inl err"
  shows "get ev now now2 st key ver = (None, removeItem st (cachePrefix @ key))
         \<and> getItem (snd (get ev now now2 st key ver)) (cachePrefix @ key) = None"
  using assms by (auto simp: get_def delete_def getItem_removeItem)

theorem get_writeback_failure_deletes_witness:
  "get full_env 50 51 [(cachePrefix @ ''apod'', Parsed 600 (demo_entry 70 100))] ''apod'' None
     = (None, [])
   \<and> getItem (snd (get full_env 50 51 [(cachePrefix @ ''apod'', Parsed 600 (demo_entry 70 100))]
                  ''apod'' None)) (cachePrefix @ ''apod'') = None"
  using get_writeback_failure_deletes
    [where st = "[(cachePrefix @ ''apod'', Parsed 600 (demo_entry 70 100))]" and key = "''apod''"
       and n = 600 and e = "demo_entry 70 100" and now = 50 and ?now2.0 = 51 and ver = None
       and ev = full_env and err = QuotaExceededError]
  by (simp add: getItem_def demo_entry_def or_str_def writeEntry_def stringify_entry_def
      setItem_def full_env_def removeItem_def)

lemma includes_str_iff: "includes_str s p \<longleftrightarrow> (\<exists>a b. s = a @ p @ b)"
proof (induction s)
  case Nil
  then show ?case by auto
next
  case (Cons c cs)
  show ?case
  proof
    assume "includes_str (c # cs) p"
    then consider "startsWith (c # cs) p" | "includes_str cs p" by auto
    then show "\<exists>a b. c # cs = a @ p @ b"
    proof cases
      case 1
      then have "c # cs = [] @ p @ drop (length p) (c # cs)"
        using startsWith_append by simp
      then show ?thesis by blast
    next
      case 2
      with Cons obtain a b where "cs = a @ p @ b" by blast
      then have "c # cs = (c # a) @ p @ b" by simp
      then show ?thesis by blast
    qed
  next
    assume "\<exists>a b. c # cs = a @ p @ b"
    then obtain a b where ab: "c # cs = a @ p @ b" by blast
    show "includes_str (c # cs) p"
    proof (cases a)
      case Nil
      with ab have "startsWith (c # cs) p" by (simp add: startsWith_def)
      then show ?thesis by simp
    next
      case (Cons x xs)
      with ab have "cs = xs @ p @ b" by simp
      with Cons.IH show ?thesis by auto
    qed
  qed
qed

lemma includes_prefixed:
  assumes "includes_str q p" and "startsWith k q"
  shows "includes_str k p"
proof -
  from assms(1) obtain a b where "q = a @ p @ b" by (auto simp: includes_str_iff)
  with startsWith_append[OF assms(2)] have "k = a @ p @ (b @ drop (length q) k)" by simp
  then show ?thesis unfolding includes_str_iff by blast
qed

text \<open>
  C10. \<open>clearCache\<close> tests the pattern on the storage key, prefix included. A pattern that
  occurs inside the prefix \<open>cosmos_connect_\<close> therefore removes every pair stored under a
  prefixed key, whatever the caller-visible keys are; pairs under other keys stay, and the
  number returned is the number of pairs removed.
\<close>

theorem clearCache_prefix_pattern:
  assumes "includes_str cachePrefix p"
  shows "snd (clearCache st (Some p)) = filter (\<lambda>kv. \<not> startsWith (fst kv) cachePrefix) st
         \<and> fst (clearCache st (Some p)) = length (filter (\<lambda>kv. startsWith (fst kv) cachePrefix) st)
         \<and> fst (clearCache st (Some p)) = length st - length (snd (clearCache st (Some p)))"
proof -
  let ?Q = "\<lambda>key. startsWith key cachePrefix
                \<and> (or_str (Some p) [] = [] \<or> includes_str key (or_str (Some p) []))"
  have Q: "?Q k = startsWith k cachePrefix" for k
    using includes_prefixed[OF assms, of k] by (auto simp: or_str_def)
  have keys: "filter ?Q (map fst st) = map fst (filter (\<lambda>kv. startsWith (fst kv) cachePrefix) st)"
    by (simp add: Q filter_map comp_def)
  have s: "snd (clearCache st (Some p)) = filter (\<lambda>kv. \<not> startsWith (fst kv) cachePrefix) st"
    unfolding clearCache_def Let_def snd_conv fold_removeItem keys
    by (rule filter_cong) auto
  have c: "fst (clearCache st (Some p)) = length (filter (\<lambda>kv. startsWith (fst kv) cachePrefix) st)"
    unfolding clearCache_def Let_def fst_conv keys by simp
  have "length st = length (filter (\<lambda>kv. startsWith (fst kv) cachePrefix) st)
                    + length (filter (\<lambda>kv. \<not> startsWith (fst kv) cachePrefix) st)"
    by (rule sum_length_filter_compl[symmetric])
  with s c show ?thesis by simp
qed

theorem clearCache_prefix_pattern_witness:
  "includes_str cachePrefix ''connect''
   \<and> \<not> includes_str ''apod_data_1'' ''connect'' \<and> \<not> includes_str ''favorites'' ''connect''
   \<and> clearCache [(cachePrefix @ ''apod_data_1'', Parsed 600 (demo_entry 70 100)),
                  (''app_theme'', Unparsable 6),
                  (cachePrefix @ ''favorites'', Parsed 600 (demo_entry 90 100))] (Some ''connect'')
       = (2, [(''app_theme'', Unparsable 6)])"
proof -
  have i: "includes_str cachePrefix ''connect''"
    by (simp add: cachePrefix_def startsWith_def)
  have n: "\<not> includes_str ''apod_data_1'' ''connect'' \<and> \<not> includes_str ''favorites'' ''connect''"
    by (simp add: startsWith_def)
  from clearCache_prefix_pattern[OF i,
      of "[(cachePrefix @ ''apod_data_1'', Parsed 600 (demo_entry 70 100)),
           (''app_theme'', Unparsable 6),
           (cachePrefix @ ''favorites'', Parsed 600 (demo_entry 90 100))]"]
  have "clearCache [(cachePrefix @ ''apod_data_1'', Parsed 600 (demo_entry 70 100)),
                  (''app_theme'', Unparsable 6),
                  (cachePrefix @ ''favorites'', Parsed 600 (demo_entry 90 100))] (Some ''connect'')
       = (2, [(''app_theme'', Unparsable 6)])"
    by (simp add: prod_eq_iff startsWith_def cachePrefix_def)
  with i n show ?thesis by simp
qed

section \<open>Cache: eviction passes\<close>

lemma getStorageInfo_all_parse:
  assumes "all_parse st"
  shows "getStorageInfo ev st =
           (\<lparr>totalSize = total_bytes st, itemCount = length (cache_items st),
             items = sort_key (\<lambda>a. - it_priority a) (cache_items st),
             maxSize = maxCacheSize ev\<rparr>, st)"
  using getStorageInfo_loop_all_parse[OF assms, of 0 0 0 "[]"]
  by (simp add: getStorageInfo_def total_bytes_def)

lemma enforce_loop_narrows:
  "getItem (snd (enforce_loop t its f st)) k = Some v \<Longrightarrow> getItem st k = Some v"
proof (induction its arbitrary: f st)
  case Nil
  then show ?case by simp
next
  case (Cons a its)
  show ?case
  proof (cases "5 * int f \<ge> t")
    case True
    with Cons.prems show ?thesis by simp
  next
    case False
    with Cons.prems
    have "getItem (snd (enforce_loop t its (f + it_size a)
             (removeItem st (cachePrefix @ it_key a)))) k = Some v"
      by simp
    from Cons.IH[OF this] show ?thesis
      by (simp add: getItem_removeItem split: if_splits)
  qed
qed

lemma enforceStorageLimit_narrows:
  assumes "getItem (enforceStorageLimit ev st) k = Some v"
  shows "getItem st k = Some v"
proof -
  obtain info st1 where g: "getStorageInfo ev st = (info, st1)" by (cases "getStorageInfo ev st")
  have n1: "getItem st1 k = Some v \<Longrightarrow> getItem st k = Some v"
    using getStorageInfo_narrows[of ev st k v] g by simp
  show ?thesis
  proof (cases "totalSize info \<le> maxCacheSize ev")
    case True
    with assms g n1 show ?thesis by (simp add: enforceStorageLimit_def)
  next
    case False
    with assms g n1 show ?thesis
      by (auto simp: enforceStorageLimit_def Let_def dest: enforce_loop_narrows)
  qed
qed


lemma set_cache_items:
  "set (cache_items st)
     = {mk_item k n e | k n e. (k, Parsed n e) \<in> set st \<and> startsWith k cachePrefix}"
proof (induction st)
  case Nil
  then show ?case by simp
next
  case (Cons x st)
  obtain k v where x: "x = (k, v)" by (cases x)
  show ?case
  proof (cases "startsWith k cachePrefix")
    case False
    with Cons x show ?thesis by auto
  next
    case True
    show ?thesis
    proof (cases v)
      case (Parsed n e)
      with True Cons x show ?thesis by auto
    next
      case (Unparsable n)
      with True Cons x show ?thesis by auto
    next
      case (Null_text n)
      with True Cons x show ?thesis by auto
    qed
  qed
qed

lemma item_storage_key:
  "startsWith k cachePrefix \<Longrightarrow> cachePrefix @ it_key (mk_item k n e) = k"
  using startsWith_append[of k cachePrefix] by simp

lemma clearLowPriorityCache_all_parse:
  assumes "all_parse st" and "distinct (map fst st)"
  shows "clearLowPriorityCache ev st = filter (\<lambda>kv. \<not> low_priority kv) st"
proof -
  let ?ks = "map (\<lambda>a. cachePrefix @ it_key a)
               (filter (\<lambda>a. it_priority a < 50) (sort_key (\<lambda>a. - it_priority a) (cache_items st)))"
  have "clearLowPriorityCache ev st = fold (\<lambda>k s. removeItem s k) ?ks st"
    by (simp add: clearLowPriorityCache_def getStorageInfo_all_parse[OF assms(1)] Let_def
        fold_map comp_def)
  then have c: "clearLowPriorityCache ev st = filter (\<lambda>kv. fst kv \<notin> set ?ks) st"
    by (simp only: fold_removeItem)
  have "fst kv \<notin> set ?ks \<longleftrightarrow> \<not> low_priority kv" if kv: "kv \<in> set st" for kv
  proof -
    obtain k v where p: "kv = (k, v)" by (cases kv)
    have "k \<in> set ?ks \<longleftrightarrow> low_priority (k, v)"
    proof
      assume "k \<in> set ?ks"
      then obtain a where a: "a \<in> set (cache_items st)" "it_priority a < 50"
          "k = cachePrefix @ it_key a" by auto
      from a(1) obtain k' n e where m: "a = mk_item k' n e" "(k', Parsed n e) \<in> set st"
          "startsWith k' cachePrefix"
        unfolding set_cache_items by blast
      from a(3) m(1) item_storage_key[OF m(3)] have "k' = k" by simp
      with m(2) kv p assms(2) have "v = Parsed n e"
        by (metis eq_key_imp_eq_value)
      with a(2) m \<open>k' = k\<close> show "low_priority (k, v)" by (simp add: low_priority_def)
    next
      assume l: "low_priority (k, v)"
      then obtain n e where v: "v = Parsed n e" "priority e < 50" "startsWith k cachePrefix"
        by (cases v) (auto simp: low_priority_def)
      with kv p have "mk_item k n e \<in> set (cache_items st)"
        unfolding set_cache_items by blast
      moreover have "cachePrefix @ it_key (mk_item k n e) = k"
        by (rule item_storage_key[OF v(3)])
      ultimately show "k \<in> set ?ks" using v(2)
        by (auto intro!: image_eqI[where x = "mk_item k n e"])
    qed
    with p show ?thesis by simp
  qed
  then have "filter (\<lambda>kv. fst kv \<notin> set ?ks) st = filter (\<lambda>kv. \<not> low_priority kv) st"
    by (intro filter_cong) auto
  with c show ?thesis by simp
qed



lemma set_cache_stored:
  assumes "set_cache ev now1 now2 st key d opts = (Inr True, st')"
    and "getItem st' (cachePrefix @ key) = Some v"
  shows "\<exists>sz. calculateSize d = Inr sz
           \<and> v = Parsed (entryBytes ev (new_entry now1 now2 key d sz opts)) (new_entry now1 now2 key d sz opts)"
proof (cases "calculateSize d")
  case (Inl err)
  with assms(1) show ?thesis by (simp add: set_cache_def)
next
  case (Inr sz)
  let ?e = "new_entry now1 now2 key d sz opts"
  let ?v = "Parsed (entryBytes ev ?e) ?e"
  have written: "getItem s' (cachePrefix @ key) = Some ?v" if "writeEntry ev s key ?e = Inr s'" for s s'
    using that
    by (auto simp: writeEntry_def stringify_entry_def setItem_def getItem_put split: if_splits)
  show ?thesis
  proof (cases "writeEntry ev st key ?e")
    case st1: (Inr st1)
    with assms(1) Inr have "st' = enforceStorageLimit ev st1"
      by (simp add: set_cache_def Let_def)
    with assms(2) have "getItem (enforceStorageLimit ev st1) (cachePrefix @ key) = Some v"
      by simp
    then have "getItem st1 (cachePrefix @ key) = Some v"
      by (rule enforceStorageLimit_narrows)
    with written[OF st1] Inr show ?thesis by simp
  next
    case err: (Inl err)
    show ?thesis
    proof (cases "writeEntry ev (clearLowPriorityCache ev st) key ?e")
      case (Inl err2)
      with err assms(1) Inr show ?thesis by (simp add: set_cache_def Let_def)
    next
      case st3: (Inr st3)
      with err assms(1) Inr have "st' = st3" by (simp add: set_cache_def Let_def)
      with written[OF st3] assms(2) Inr show ?thesis by simp
    qed
  qed
qed


lemma getCachePriority_loop_default:
  "\<forall>p \<in> fst ` set ps. \<not> includes_str key p \<Longrightarrow> getCachePriority_loop ps key = 10"
  by (induction ps) auto

lemma getCachePriority_loop_first_match:
  assumes "i < length ps" and "includes_str key (fst (ps ! i))"
    and "\<forall>j<i. \<not> includes_str key (fst (ps ! j))"
  shows "getCachePriority_loop ps key = snd (ps ! i)"
  using assms
proof (induction ps arbitrary: i)
  case Nil
  then show ?case by simp
next
  case (Cons p ps)
  obtain pat pr where p: "p = (pat, pr)" by (cases p)
  show ?case
  proof (cases i)
    case 0
    with Cons.prems p show ?thesis by simp
  next
    case (Suc i')
    from Cons.prems(3) Suc have no: "\<not> includes_str key pat"
      using p by (auto dest: spec[of _ 0])
    from Cons.prems Suc have "i' < length ps" "includes_str key (fst (ps ! i'))"
      by simp_all
    moreover have "\<forall>j<i'. \<not> includes_str key (fst (ps ! j))"
    proof (intro allI impI)
      fix j assume "j < i'"
      then have "Suc j < i" using Suc by simp
      with Cons.prems(3) have "\<not> includes_str key (fst ((p # ps) ! Suc j))" by blast
      then show "\<not> includes_str key (fst (ps ! j))" by simp
    qed
    ultimately have "getCachePriority_loop ps key = snd (ps ! i')" by (rule Cons.IH)
    with no p Suc show ?thesis by simp
  qed
qed

section \<open>Numbers: the rounded sum\<close>

lemma bitlen_bounds: "n < 2 ^ bitlen n \<and> (0 < n \<longrightarrow> 2 ^ (bitlen n - 1) \<le> n)"
proof (induction n rule: bitlen.induct)
  case (1 n)
  show ?case
  proof (cases "n = 0")
    case True
    then show ?thesis by (simp add: bitlen.simps[of n])
  next
    case False
    from 1[OF False] have up: "n div 2 < 2 ^ bitlen (n div 2)"
      and lo: "0 < n div 2 \<longrightarrow> 2 ^ (bitlen (n div 2) - 1) \<le> n div 2"
      by simp_all
    have b: "bitlen n = Suc (bitlen (n div 2))" using False by (simp add: bitlen.simps[of n])
    from up have "n < 2 * 2 ^ bitlen (n div 2)" by linarith
    then have 1: "n < 2 ^ bitlen n" by (simp add: b)
    have 2: "2 ^ (bitlen n - 1) \<le> n"
    proof (cases "n div 2 = 0")
      case True
      then have "bitlen (n div 2) = 0" by (simp add: bitlen.simps[of 0])
      with False show ?thesis by (simp add: b)
    next
      case nz: False
      then obtain c where c: "bitlen (n div 2) = Suc c"
        by (simp add: bitlen.simps[of "n div 2"])
      from nz lo have "2 ^ (bitlen (n div 2) - 1) \<le> n div 2" by simp
      then have "2 * 2 ^ c \<le> n" unfolding c by simp
      then show ?thesis by (simp add: b c)
    qed
    from 1 2 show ?thesis by simp
  qed
qed

lemma bitlen_eq:
  assumes "2 ^ b \<le> n" and "n < 2 ^ Suc b"
  shows "bitlen n = Suc b"
proof -
  have npos: "0 < n" using assms(1) by (cases "n = 0") simp_all
  from bitlen_bounds[of n] npos have up: "n < 2 ^ bitlen n" and lo: "2 ^ (bitlen n - 1) \<le> n"
    by simp_all
  from assms(1) up have "(2::nat) ^ b < 2 ^ bitlen n" by (rule le_less_trans)
  then have 1: "b < bitlen n" by simp
  from lo assms(2) have "(2::nat) ^ (bitlen n - 1) < 2 ^ Suc b" by (rule le_less_trans)
  then have 2: "bitlen n - 1 < Suc b" by (rule power_less_imp_less_exp[rotated]) simp
  from 1 2 show ?thesis by simp
qed

lemma round_double_exact: "\<bar>x\<bar> \<le> 2 ^ 53 \<Longrightarrow> round_double x = x"
  by (simp add: round_double_def)


text \<open>Within the range of time values the default expiry is exact.\<close>

lemma js_add_hour_exact:
  assumes "time_value t"
  shows "js_add t 3600000 = t + 3600000"
proof -
  from assms have "\<bar>t + 3600000\<bar> \<le> 2 ^ 53" by (simp add: time_value_def)
  then show ?thesis unfolding js_add_def by (rule round_double_exact)
qed


text \<open>
  Beyond \<open>2 ^ 53\<close> the sum is rounded: \<open>1000 + 9007199254740991\<close> lies halfway between two
  doubles and goes to the even one; added to \<open>2 ^ 60\<close>, which no clock returns, 1 is lost.
\<close>

lemma js_add_rounds_to_even: "js_add 1000 9007199254740991 = 9007199254741992"
proof -
  have "bitlen 9007199254741991 = Suc 53" by (rule bitlen_eq) simp_all
  then show ?thesis by (simp add: js_add_def round_double_def Let_def)
qed

lemma js_add_absorbs: "js_add 1152921504606846976 1 = 1152921504606846976"
proof -
  have "bitlen 1152921504606846977 = Suc 60" by (rule bitlen_eq) simp_all
  then show ?thesis by (simp add: js_add_def round_double_def Let_def)
qed

section \<open>Cache: defaulting in set\<close>

text \<open>
  C9. Defaulting in \<open>set\<close> tests truthiness. In the entry that a successful \<open>set\<close> leaves
  under the key, a supplied priority of 0 is replaced by \<open>getCachePriority(key)\<close>: the
  priority of the first pattern of the table, in table order, that the key contains (90 for
  \<open>favorites_list\<close>), and 10 when the key contains none (as for \<open>k\<close>). A supplied ttl of 0
  is replaced by 3600000 ms: the expiry computed from the ttl is the second clock reading of
  \<open>set\<close> plus 3600000, exactly so for every time value.
\<close>

theorem set_zero_options_replaced:
  assumes "set_cache ev now1 now2 st key d opts = (Inr True, st')"
    and "getItem st' (cachePrefix @ key) = Some (Parsed n e)"
  shows "(opt_priority opts = Some 0 \<longrightarrow> priority e = getCachePriority key)
         \<and> (\<forall>i < length cachePriorities.
               includes_str key (fst (cachePriorities ! i))
               \<and> (\<forall>j<i. \<not> includes_str key (fst (cachePriorities ! j)))
               \<longrightarrow> getCachePriority key = snd (cachePriorities ! i))
         \<and> ((\<forall>p \<in> fst ` set cachePriorities. \<not> includes_str key p) \<longrightarrow> getCachePriority key = 10)
         \<and> getCachePriority ''favorites_list'' = 90 \<and> getCachePriority ''k'' = 10
         \<and> (opt_ttl opts = Some 0 \<longrightarrow>
               expires e = or_number (opt_expires opts) (js_add now2 3600000))
         \<and> (opt_ttl opts = Some 0 \<and> (opt_expires opts = None \<or> opt_expires opts = Some 0)
               \<and> time_value now2 \<longrightarrow> expires e = now2 + 3600000)"
proof -
  from set_cache_stored[OF assms] obtain sz where e: "e = new_entry now1 now2 key d sz opts"
    by auto
  have p0: "opt_priority opts = Some 0 \<longrightarrow> priority e = getCachePriority key"
    by (simp add: e new_entry_def or_number_def)
  have first: "\<forall>i < length cachePriorities.
               includes_str key (fst (cachePriorities ! i))
               \<and> (\<forall>j<i. \<not> includes_str key (fst (cachePriorities ! j)))
               \<longrightarrow> getCachePriority key = snd (cachePriorities ! i)"
    unfolding getCachePriority_def
    by (intro allI impI) (rule getCachePriority_loop_first_match, simp_all)
  have none: "(\<forall>p \<in> fst ` set cachePriorities. \<not> includes_str key p) \<longrightarrow> getCachePriority key = 10"
    using getCachePriority_loop_default[of cachePriorities key]
    by (simp add: getCachePriority_def)
  have fav: "getCachePriority ''favorites_list'' = 90"
    by (simp add: getCachePriority_def cachePriorities_def startsWith_def)
  have k: "getCachePriority ''k'' = 10"
    by (simp add: getCachePriority_def cachePriorities_def startsWith_def)
  have t0: "opt_ttl opts = Some 0 \<longrightarrow>
              expires e = or_number (opt_expires opts) (js_add now2 3600000)"
    by (simp add: e new_entry_def or_number_def)
  have t1: "opt_ttl opts = Some 0 \<and> (opt_expires opts = None \<or> opt_expires opts = Some 0)
              \<and> time_value now2 \<longrightarrow> expires e = now2 + 3600000"
    using js_add_hour_exact[of now2] by (auto simp: e new_entry_def or_number_def)
  show ?thesis
    by (intro conjI) (fact p0 first none fav k t0 t1)+
qed

lemma set_cache_empty_store:
  "set_cache demo_env now1 now2 [] key (Json s) opts
     = (Inr True, [(cachePrefix @ key,
          Parsed 600 (new_entry now1 now2 key (Json s) (length s) opts))])"
  if "opt_tags opts = None" "opt_metadata opts = None"
proof -
  let ?e = "new_entry now1 now2 key (Json s) (length s) opts"
  let ?st = "[(cachePrefix @ key, Parsed 600 ?e)]"
  have w: "writeEntry demo_env [] key ?e = Inr ?st"
    using that
    by (simp add: writeEntry_def stringify_entry_def setItem_def demo_env_def new_entry_def
        or_obj_def)
  have p: "all_parse ?st" by (simp add: all_parse_def)
  have "enforceStorageLimit demo_env ?st = ?st"
    by (simp add: enforceStorageLimit_def getStorageInfo_all_parse[OF p] total_bytes_def
        demo_env_def startsWith_def)
  with w show ?thesis
    by (simp add: set_cache_def calculateSize_def Let_def)
qed

theorem set_zero_options_replaced_witness:
  "set_cache demo_env 1000 1001 [] ''favorites_list'' (Json ''1'')
       (no_options\<lparr>opt_priority := Some 0, opt_ttl := Some 0\<rparr>)
     = (Inr True, [(cachePrefix @ ''favorites_list'', Parsed 600
          (new_entry 1000 1001 ''favorites_list'' (Json ''1'') 1
             (no_options\<lparr>opt_priority := Some 0, opt_ttl := Some 0\<rparr>)))])
   \<and> priority (new_entry 1000 1001 ''favorites_list'' (Json ''1'') 1
         (no_options\<lparr>opt_priority := Some 0, opt_ttl := Some 0\<rparr>)) = 90
   \<and> timestamp (new_entry 1000 1001 ''favorites_list'' (Json ''1'') 1
         (no_options\<lparr>opt_priority := Some 0, opt_ttl := Some 0\<rparr>)) = 1000
   \<and> expires (new_entry 1000 1001 ''favorites_list'' (Json ''1'') 1
         (no_options\<lparr>opt_priority := Some 0, opt_ttl := Some 0\<rparr>)) = 3601001"
proof -
  let ?opts = "no_options\<lparr>opt_priority := Some 0, opt_ttl := Some 0\<rparr>"
  let ?e = "new_entry 1000 1001 ''favorites_list'' (Json ''1'') 1 ?opts"
  have ev: "set_cache demo_env 1000 1001 [] ''favorites_list'' (Json ''1'') ?opts
              = (Inr True, [(cachePrefix @ ''favorites_list'', Parsed 600 ?e)])"
    using set_cache_empty_store[of ?opts 1000 1001 "''favorites_list''" "''1''"]
    by (simp add: no_options_def)
  have g: "getItem [(cachePrefix @ ''favorites_list'', Parsed 600 ?e)]
             (cachePrefix @ ''favorites_list'') = Some (Parsed 600 ?e)"
    by (simp add: getItem_def)
  have tv: "time_value 1001" by (simp add: time_value_def)
  have o: "opt_priority ?opts = Some 0" "opt_ttl ?opts = Some 0" "opt_expires ?opts = None"
    by (simp_all add: no_options_def)
  have ts: "timestamp ?e = 1000" by (simp add: new_entry_def)
  from set_zero_options_replaced[OF ev g] tv o ts ev show ?thesis
    by simp
qed

section \<open>Cache: expiry and creation time\<close>




section \<open>Cache: budget enforcement\<close>

lemma enforce_loop_take:
  "enforce_loop t L f st =
     (f + sum_list (map it_size (take (evict_count t L f) L)),
      fold (\<lambda>k s. removeItem s k) (map storage_key (take (evict_count t L f) L)) st)"
  by (induction L arbitrary: f st) (simp_all add: storage_key_def add.assoc)

lemma evict_count_le: "evict_count t L f \<le> length L"
  by (induction L arbitrary: f) simp_all

lemma evict_count_reached:
  "evict_count t L f < length L \<Longrightarrow>
   t \<le> 5 * int (f + sum_list (map it_size (take (evict_count t L f) L)))"
proof (induction L arbitrary: f)
  case Nil
  then show ?case by simp
next
  case (Cons a L)
  show ?case
  proof (cases "t \<le> 5 * int f")
    case True
    then show ?thesis by simp
  next
    case False
    with Cons.prems have "evict_count t L (f + it_size a) < length L" by simp
    from Cons.IH[OF this] False show ?thesis by (simp add: add.assoc)
  qed
qed

lemma evict_count_needed:
  "0 < evict_count t L f \<Longrightarrow>
   5 * int (f + sum_list (map it_size (take (evict_count t L f - 1) L))) < t"
proof (induction L arbitrary: f)
  case Nil
  then show ?case by simp
next
  case (Cons a L)
  from Cons.prems have nf: "\<not> t \<le> 5 * int f" by (simp split: if_splits)
  show ?case
  proof (cases "evict_count t L (f + it_size a)")
    case 0
    with nf show ?thesis by simp
  next
    case (Suc m)
    with Cons.IH[of "f + it_size a"] nf show ?thesis by (simp add: add.assoc)
  qed
qed

lemma evict_count_pos: "5 * int f < t \<Longrightarrow> L \<noteq> [] \<Longrightarrow> 0 < evict_count t L f"
  by (cases L) simp_all

lemma cache_items_filter_keys:
  "cache_items (filter (\<lambda>kv. fst kv \<notin> K) st)
     = filter (\<lambda>a. storage_key a \<notin> K) (cache_items st)"
proof (induction st)
  case Nil
  then show ?case by simp
next
  case (Cons x st)
  obtain k v where x: "x = (k, v)" by (cases x)
  show ?case
  proof (cases "startsWith k cachePrefix")
    case False
    with Cons x show ?thesis by simp
  next
    case True
    show ?thesis
    proof (cases v)
      case (Parsed n e)
      with True Cons x item_storage_key[OF True, of n e] show ?thesis
        by (simp add: storage_key_def)
    next
      case (Unparsable n)
      with True Cons x show ?thesis by simp
    next
      case (Null_text n)
      with True Cons x show ?thesis by simp
    qed
  qed
qed

lemma storage_keys_cache_items:
  "map storage_key (cache_items st)
     = map fst (filter (\<lambda>kv. startsWith (fst kv) cachePrefix
                             \<and> (case snd kv of Parsed n e \<Rightarrow> True | Unparsable n \<Rightarrow> False
                                           | Null_text n \<Rightarrow> False)) st)"
proof (induction st)
  case Nil
  then show ?case by simp
next
  case (Cons x st)
  obtain k v where x: "x = (k, v)" by (cases x)
  show ?case
  proof (cases "startsWith k cachePrefix")
    case False
    with Cons x show ?thesis by simp
  next
    case True
    show ?thesis
    proof (cases v)
      case (Parsed n e)
      with True Cons x item_storage_key[OF True, of n e] show ?thesis
        by (simp add: storage_key_def)
    next
      case (Unparsable n)
      with True Cons x show ?thesis by simp
    next
      case (Null_text n)
      with True Cons x show ?thesis by simp
    qed
  qed
qed

lemma distinct_storage_keys:
  "distinct (map fst st) \<Longrightarrow> distinct (map storage_key (cache_items st))"
  unfolding storage_keys_cache_items by (rule distinct_map_filter)

lemma filter_not_in_take:
  assumes "distinct (map g L)"
  shows "filter (\<lambda>a. g a \<notin> set (map g (take n L))) L = drop n L"
proof -
  have d: "distinct (map g (take n L) @ map g (drop n L))"
    using assms by (metis append_take_drop_id map_append)
  have 1: "filter (\<lambda>a. g a \<notin> set (map g (take n L))) (take n L) = []"
    by (auto simp: filter_empty_conv)
  have 2: "filter (\<lambda>a. g a \<notin> set (map g (take n L))) (drop n L) = drop n L"
    using d by (auto simp: filter_id_conv)
  have "filter (\<lambda>a. g a \<notin> set (map g (take n L))) (take n L @ drop n L) = drop n L"
    unfolding filter_append 1 2 by simp
  then show ?thesis by simp
qed

lemma map_fst_put:
  "map fst (put st k v) = (if k \<in> set (map fst st) then map fst st else map fst st @ [k])"
  by (induction st) (force+)

lemma distinct_put: "distinct (map fst st) \<Longrightarrow> distinct (map fst (put st k v))"
  by (simp add: map_fst_put)

lemma all_parse_put: "all_parse st \<Longrightarrow> all_parse (put st k (Parsed n e))"
  by (induction st) (auto simp: all_parse_def)

lemma all_parse_filter: "all_parse st \<Longrightarrow> all_parse (filter P st)"
  by (induction st) (auto simp: all_parse_def)

lemma mem_put: "(k, v) \<in> set (put st k v)"
  by (induction st) auto

lemma startsWith_prefix [simp]: "startsWith (p @ s) p"
  by (simp add: startsWith_def)

lemma sum_list_mset_cong:
  fixes f :: "'a \<Rightarrow> nat"
  assumes "mset xs = mset ys"
  shows "sum_list (map f xs) = sum_list (map f ys)"
proof -
  from assms have "mset (map f xs) = mset (map f ys)" by simp
  then have "sum_mset (mset (map f xs)) = sum_mset (mset (map f ys))" by (rule arg_cong)
  then show ?thesis by (simp only: sum_mset_sum_list)
qed

text \<open>What \<open>enforceStorageLimit\<close> does on an over-budget store whose entries all parse.\<close>

lemma enforceStorageLimit_over_budget:
  assumes L_def: "L = sort_key (\<lambda>a. (it_priority a, it_lastAccessed a))
                 (sort_key (\<lambda>a. - it_priority a) (cache_items st1))"
    and t_def: "t = 5 * int (total_bytes st1) - 4 * int (maxCacheSize ev)"
    and n_def: "n = evict_count t L 0"
    and st2_def: "st2 = enforceStorageLimit ev st1"
    and ap: "all_parse st1" and dk: "distinct (map fst st1)"
    and over: "maxCacheSize ev < total_bytes st1"
  shows "st2 = filter (\<lambda>kv. fst kv \<notin> set (map storage_key (take n L))) st1"
    and "mset (cache_items st2) = mset (drop n L)"
    and "mset (cache_items st1) = mset (take n L) + mset (drop n L)"
    and "sorted (map (\<lambda>a. (it_priority a, it_lastAccessed a)) L)"
    and "0 < n" and "n \<le> length L"
    and "n < length L \<longrightarrow> t \<le> 5 * int (sum_list (map it_size (take n L)))"
    and "5 * int (sum_list (map it_size (take (n - 1) L))) < t"
proof -
  let ?K = "set (map storage_key (take n L))"
  have mL: "mset L = mset (cache_items st1)" by (simp add: L_def)
  show eq: "st2 = filter (\<lambda>kv. fst kv \<notin> ?K) st1"
    using over
    by (simp add: st2_def enforceStorageLimit_def getStorageInfo_all_parse[OF ap] Let_def
        enforce_loop_take fold_removeItem L_def t_def n_def)
  have d0: "distinct (map storage_key (cache_items st1))"
    by (rule distinct_storage_keys[OF dk])
  have "mset (map storage_key L) = mset (map storage_key (cache_items st1))"
    using mL by simp
  from mset_eq_imp_distinct_iff[OF this] d0 have dL: "distinct (map storage_key L)"
    by blast
  have "mset (cache_items st2) = filter_mset (\<lambda>a. storage_key a \<notin> ?K) (mset (cache_items st1))"
    by (simp add: eq cache_items_filter_keys)
  also have "\<dots> = mset (filter (\<lambda>a. storage_key a \<notin> ?K) L)"
    by (simp add: mL[symmetric])
  also have "\<dots> = mset (drop n L)"
    by (simp only: filter_not_in_take[OF dL])
  finally show "mset (cache_items st2) = mset (drop n L)" .
  have "mset (take n L) + mset (drop n L) = mset (take n L @ drop n L)"
    by (simp only: mset_append)
  also have "\<dots> = mset L" by (simp only: append_take_drop_id)
  finally show "mset (cache_items st1) = mset (take n L) + mset (drop n L)"
    using mL by simp
  show "sorted (map (\<lambda>a. (it_priority a, it_lastAccessed a)) L)"
    by (simp add: L_def)
  have "sum_list (map it_size L) = total_bytes st1"
    unfolding total_bytes_def by (rule sum_list_mset_cong[OF mL])
  with over have "L \<noteq> []" by auto
  moreover from over have "5 * int 0 < t" by (simp add: t_def)
  ultimately show "0 < n" unfolding n_def by (rule evict_count_pos[rotated])
  then show "5 * int (sum_list (map it_size (take (n - 1) L))) < t"
    using evict_count_needed[of t L 0] by (simp add: n_def)
  show "n \<le> length L" unfolding n_def by (rule evict_count_le)
  show "n < length L \<longrightarrow> t \<le> 5 * int (sum_list (map it_size (take n L)))"
    using evict_count_reached[of t L 0] by (simp add: n_def)
qed

lemma storage_key_prefixed: "startsWith (storage_key a) cachePrefix"
  by (simp add: storage_key_def)

lemma sum_take_mono:
  fixes f :: "'a \<Rightarrow> nat"
  assumes "m \<le> n"
  shows "sum_list (map f (take m L)) \<le> sum_list (map f (take n L))"
proof -
  from assms obtain d where n: "n = m + d" by (auto simp: le_iff_add)
  have "take n L = take m L @ take d (drop m L)" unfolding n by (rule take_add)
  then show ?thesis by simp
qed

lemma bound_reached_after:
  fixes B t1 sT :: nat and t :: int
  assumes "t \<le> 5 * int sT" and "t = 5 * int t1 - 4 * int B"
  shows "5 * t1 \<le> 4 * B + 5 * sT"
  using assms by linarith

lemma bound_not_reached_before:
  fixes B t1 sm sP :: nat and t :: int
  assumes "5 * int sP < t" and "sm \<le> sP" and "t = 5 * int t1 - 4 * int B"
  shows "4 * B + 5 * sm < 5 * t1"
  using assms by linarith

text \<open>
  C1, as the code has it. Let a store whose cache entries all parse and whose keys are distinct
  receive a \<open>set\<close> whose first write attempt succeeds and leaves more than \<open>maxCacheSize\<close>
  bytes of cache entries. Then \<open>set\<close> returns \<open>true\<close>, and its eviction pass leaves at most
  0.8 times \<open>maxCacheSize\<close> bytes (also as \<open>getStorageInfo\<close> counts them). The candidates
  are the cache entries of the store after the write, the written entry among them, in
  ascending order of (priority, lastAccessed). The pass removes the shortest prefix of that
  list after which the total is at or below 0.8 times \<open>maxCacheSize\<close>: before each removal
  the total was still above it. Every removed entry is at most every kept entry in that
  order, and pairs under other keys stay.
\<close>

theorem set_over_budget_eviction:
  assumes ap: "all_parse st" and dk: "distinct (map fst st)"
    and cs: "calculateSize d = Inr sz"
    and wr: "writeEntry ev st key (new_entry now1 now2 key d sz opts) = Inr st1"
    and over: "maxCacheSize ev < total_bytes st1"
    and res: "set_cache ev now1 now2 st key d opts = (r, st2)"
  shows "r = Inr True
    \<and> 5 * total_bytes st2 \<le> 4 * maxCacheSize ev
    \<and> totalSize (fst (getStorageInfo ev st2)) = total_bytes st2
    \<and> (\<forall>kv \<in> set st1. \<not> startsWith (fst kv) cachePrefix \<longrightarrow> kv \<in> set st2)
    \<and> mk_item (cachePrefix @ key) (entryBytes ev (new_entry now1 now2 key d sz opts))
          (new_entry now1 now2 key d sz opts) \<in> set (cache_items st1)
    \<and> mset (removal_order st1) = mset (cache_items st1)
    \<and> sorted (map (\<lambda>a. (it_priority a, it_lastAccessed a)) (removal_order st1))
    \<and> (\<exists>n \<le> length (removal_order st1).
          st2 = filter (\<lambda>kv. fst kv \<notin> storage_key ` set (take n (removal_order st1))) st1
          \<and> mset (cache_items st2) = mset (drop n (removal_order st1))
          \<and> (\<forall>m < n. 4 * maxCacheSize ev
                         + 5 * sum_list (map it_size (take m (removal_order st1)))
                       < 5 * total_bytes st1)
          \<and> 5 * total_bytes st1
              \<le> 4 * maxCacheSize ev + 5 * sum_list (map it_size (take n (removal_order st1))))
    \<and> set (cache_items st2) \<subseteq> set (cache_items st1)
    \<and> (\<forall>a \<in> set (cache_items st1) - set (cache_items st2). \<forall>b \<in> set (cache_items st2).
          (it_priority a, it_lastAccessed a) \<le> (it_priority b, it_lastAccessed b))"
proof -
  let ?e = "new_entry now1 now2 key d sz opts"
  let ?f = "\<lambda>a. (it_priority a, it_lastAccessed a)"
  define L where "L = removal_order st1"
  define t where "t = 5 * int (total_bytes st1) - 4 * int (maxCacheSize ev)"
  define n where "n = evict_count t L 0"
  define T where "T = take n L"
  define D where "D = drop n L"
  have L: "L = sort_key ?f (sort_key (\<lambda>a. - it_priority a) (cache_items st1))"
    by (simp add: L_def removal_order_def)
  from wr have st1: "st1 = put st (cachePrefix @ key) (Parsed (entryBytes ev ?e) ?e)"
    by (auto simp: writeEntry_def stringify_entry_def setItem_def split: if_splits)
  have ap1: "all_parse st1" unfolding st1 by (rule all_parse_put[OF ap])
  have dk1: "distinct (map fst st1)" unfolding st1 by (rule distinct_put[OF dk])
  from res cs wr have r: "r = Inr True" and st2: "st2 = enforceStorageLimit ev st1"
    by (simp_all add: set_cache_def Let_def)
  note E = enforceStorageLimit_over_budget[OF L t_def n_def st2 ap1 dk1 over]
  have LTD: "L = T @ D" by (simp add: T_def D_def)
  have m2: "mset (cache_items st2) = mset D" unfolding D_def by (rule E(2))
  have m1: "mset (cache_items st1) = mset (T @ D)"
    unfolding T_def D_def mset_append by (rule E(3))
  have mL: "mset L = mset (cache_items st1)" using m1 by (simp add: LTD)
  have sL: "sorted (map ?f L)" by (rule E(4))
  have s2: "set (cache_items st2) = set D" using m2 by (rule mset_eq_setD)
  have s1: "set (cache_items st1) = set T \<union> set D" using mset_eq_setD[OF m1] by simp
  have "distinct (cache_items st1)"
    using distinct_storage_keys[OF dk1] by (simp add: distinct_map)
  with mset_eq_imp_distinct_iff[OF m1] have "distinct (T @ D)" by blast
  then have disj: "set T \<inter> set D = {}" by simp
  have removed: "set (cache_items st1) - set (cache_items st2) = set T"
    using s1 s2 disj by blast
  have tot2: "total_bytes st2 = sum_list (map it_size D)"
    unfolding total_bytes_def by (rule sum_list_mset_cong[OF m2])
  have tot1: "total_bytes st1 = sum_list (map it_size T) + sum_list (map it_size D)"
    unfolding total_bytes_def using sum_list_mset_cong[OF m1, of it_size] by simp
  have totL: "total_bytes st1 = sum_list (map it_size L)"
    using tot1 by (simp add: LTD)
  have nle: "n \<le> length L" by (rule E(6))
  have after: "5 * total_bytes st1 \<le> 4 * maxCacheSize ev + 5 * sum_list (map it_size T)"
  proof (cases "n < length L")
    case True
    with E(7) have "t \<le> 5 * int (sum_list (map it_size T))" by (simp add: T_def)
    then show ?thesis using t_def by (rule bound_reached_after)
  next
    case False
    with nle have "T = L" by (simp add: T_def)
    then show ?thesis by (simp add: totL)
  qed
  have bound: "5 * total_bytes st2 \<le> 4 * maxCacheSize ev"
    using after tot1 tot2 by simp
  have before: "\<forall>m < n. 4 * maxCacheSize ev + 5 * sum_list (map it_size (take m L))
                        < 5 * total_bytes st1"
  proof (intro allI impI)
    fix m assume "m < n"
    then have "m \<le> n - 1" by simp
    then have "sum_list (map it_size (take m L)) \<le> sum_list (map it_size (take (n - 1) L))"
      by (rule sum_take_mono)
    with E(8) show "4 * maxCacheSize ev + 5 * sum_list (map it_size (take m L))
                      < 5 * total_bytes st1"
      using t_def by (rule bound_not_reached_before)
  qed
  have eq: "st2 = filter (\<lambda>kv. fst kv \<notin> storage_key ` set (take n L)) st1"
    using E(1) by simp
  have ap2: "all_parse st2" unfolding eq by (rule all_parse_filter[OF ap1])
  have info: "totalSize (fst (getStorageInfo ev st2)) = total_bytes st2"
    by (simp add: getStorageInfo_all_parse[OF ap2])
  have other: "\<forall>kv \<in> set st1. \<not> startsWith (fst kv) cachePrefix \<longrightarrow> kv \<in> set st2"
  proof (intro ballI impI)
    fix kv assume kv: "kv \<in> set st1" "\<not> startsWith (fst kv) cachePrefix"
    have "fst kv \<notin> storage_key ` set (take n L)"
    proof
      assume "fst kv \<in> storage_key ` set (take n L)"
      then obtain a where "fst kv = storage_key a" by auto
      with kv(2) storage_key_prefixed[of a] show False by simp
    qed
    with kv(1) show "kv \<in> set st2" unfolding eq by simp
  qed
  have new: "mk_item (cachePrefix @ key) (entryBytes ev ?e) ?e \<in> set (cache_items st1)"
  proof -
    have "(cachePrefix @ key, Parsed (entryBytes ev ?e) ?e) \<in> set st1"
      unfolding st1 by (rule mem_put)
    moreover have "startsWith (cachePrefix @ key) cachePrefix" by simp
    ultimately show ?thesis unfolding set_cache_items by blast
  qed
  have sub: "set (cache_items st2) \<subseteq> set (cache_items st1)" using s1 s2 by blast
  have "sorted (map ?f T @ map ?f D)" using sL by (simp add: LTD)
  then have "\<forall>a \<in> set T. \<forall>b \<in> set D. ?f a \<le> ?f b"
    by (simp add: sorted_append)
  then have ord: "\<forall>a \<in> set (cache_items st1) - set (cache_items st2).
      \<forall>b \<in> set (cache_items st2). ?f a \<le> ?f b"
    unfolding removed unfolding s2 .
  have shortest: "\<exists>n \<le> length L.
          st2 = filter (\<lambda>kv. fst kv \<notin> storage_key ` set (take n L)) st1
          \<and> mset (cache_items st2) = mset (drop n L)
          \<and> (\<forall>m < n. 4 * maxCacheSize ev + 5 * sum_list (map it_size (take m L))
                       < 5 * total_bytes st1)
          \<and> 5 * total_bytes st1 \<le> 4 * maxCacheSize ev + 5 * sum_list (map it_size (take n L))"
    using nle eq m2 before after unfolding T_def D_def by blast
  show ?thesis
    unfolding L_def[symmetric]
    by (intro conjI) (fact r bound info other new mL sL shortest sub ord)+
qed

text \<open>The store the pass leaves when the written entry has the lowest priority of two.\<close>

lemma enforce_two_entries:
  fixes eA eB :: cacheEntry
  assumes "priority eB < priority eA"
  shows "enforceStorageLimit demo_env
           [(cachePrefix @ ''A'', Parsed 600 eA), (cachePrefix @ ''B'', Parsed 600 eB)]
         = [(cachePrefix @ ''A'', Parsed 600 eA)]"
proof -
  let ?st1 = "[(cachePrefix @ ''A'', Parsed 600 eA), (cachePrefix @ ''B'', Parsed 600 eB)]"
  have p: "all_parse ?st1" by (simp add: all_parse_def)
  have c: "cache_items ?st1
             = [mk_item (cachePrefix @ ''A'') 600 eA, mk_item (cachePrefix @ ''B'') 600 eB]"
    by simp
  have m: "maxCacheSize demo_env = 1000" by (simp add: demo_env_def)
  have e: "enforceStorageLimit demo_env ?st1 =
             snd (enforce_loop 2000
                    (sort_key (\<lambda>a. (it_priority a, it_lastAccessed a))
                       (sort_key (\<lambda>a. - it_priority a) (cache_items ?st1))) 0 ?st1)"
    unfolding enforceStorageLimit_def getStorageInfo_all_parse[OF p]
    by (simp add: total_bytes_def m)
  show ?thesis
    unfolding e c using assms by (simp add: removeItem_def)
qed

lemma write_second_entry:
  "writeEntry demo_env [(cachePrefix @ ''A'', Parsed 600 eA)] ''B''
       (new_entry 50 51 ''B'' (Json ''1'') 1 (no_options\<lparr>opt_priority := Some pb\<rparr>))
     = Inr [(cachePrefix @ ''A'', Parsed 600 eA),
            (cachePrefix @ ''B'', Parsed 600
               (new_entry 50 51 ''B'' (Json ''1'') 1 (no_options\<lparr>opt_priority := Some pb\<rparr>)))]"
  by (simp add: writeEntry_def stringify_entry_def setItem_def demo_env_def new_entry_def
      or_obj_def no_options_def)

text \<open>
  C1. The candidates of the eviction pass are the entries of the store after the write, the
  written entry included. With a budget of 1000 bytes and entries of 600 bytes, a store that
  holds \<open>A\<close> (priority 90) and receives \<open>B\<close> (priority 10) holds 1200 bytes after the write;
  the pass removes \<open>B\<close>, which was not in the store before the write, and keeps \<open>A\<close>, the
  one entry that was.
\<close>

theorem set_evicts_written_entry:
  "set_cache demo_env 50 51 [(cachePrefix @ ''A'', Parsed 600 (demo_entry 90 100))]
       ''B'' (Json ''1'') (no_options\<lparr>opt_priority := Some 10\<rparr>)
     = (Inr True, [(cachePrefix @ ''A'', Parsed 600 (demo_entry 90 100))])
   \<and> getItem [(cachePrefix @ ''A'', Parsed 600 (demo_entry 90 100))] (cachePrefix @ ''B'') = None"
proof -
  let ?e = "new_entry 50 51 ''B'' (Json ''1'') 1 (no_options\<lparr>opt_priority := Some 10\<rparr>)"
  have "priority ?e < priority (demo_entry 90 100)"
    by (simp add: new_entry_def or_number_def demo_entry_def)
  from enforce_two_entries[OF this] write_second_entry[of "demo_entry 90 100" 10]
  show ?thesis
    by (simp add: set_cache_def calculateSize_def Let_def getItem_def)
qed

text \<open>
  The store the pass leaves when the first of three entries in removal order frees enough.
\<close>

lemma enforce_three_entries:
  fixes ea eb ec :: cacheEntry
  assumes "priority ea < priority eb" and "priority eb < priority ec"
  shows "enforceStorageLimit demo_env
           [(cachePrefix @ ''a'', Parsed 500 ea), (cachePrefix @ ''b'', Parsed 10 eb),
            (cachePrefix @ ''c'', Parsed 600 ec)]
         = [(cachePrefix @ ''b'', Parsed 10 eb), (cachePrefix @ ''c'', Parsed 600 ec)]"
proof -
  let ?st1 = "[(cachePrefix @ ''a'', Parsed 500 ea), (cachePrefix @ ''b'', Parsed 10 eb),
               (cachePrefix @ ''c'', Parsed 600 ec)]"
  have p: "all_parse ?st1" by (simp add: all_parse_def)
  have c: "cache_items ?st1
             = [mk_item (cachePrefix @ ''a'') 500 ea, mk_item (cachePrefix @ ''b'') 10 eb,
                mk_item (cachePrefix @ ''c'') 600 ec]"
    by simp
  have m: "maxCacheSize demo_env = 1000" by (simp add: demo_env_def)
  have e: "enforceStorageLimit demo_env ?st1 =
             snd (enforce_loop 1550
                    (sort_key (\<lambda>a. (it_priority a, it_lastAccessed a))
                       (sort_key (\<lambda>a. - it_priority a) (cache_items ?st1))) 0 ?st1)"
    unfolding enforceStorageLimit_def getStorageInfo_all_parse[OF p]
    by (simp add: total_bytes_def m)
  show ?thesis
    unfolding e c using assms by (simp add: removeItem_def)
qed

theorem set_over_budget_eviction_witness:
  "all_parse [(cachePrefix @ ''a'', Parsed 500 (demo_entry 1 100)),
              (cachePrefix @ ''b'', Parsed 10 (demo_entry 2 100))]
   \<and> maxCacheSize demo_env
       < total_bytes [(cachePrefix @ ''a'', Parsed 500 (demo_entry 1 100)),
                      (cachePrefix @ ''b'', Parsed 10 (demo_entry 2 100)),
                      (cachePrefix @ ''c'', Parsed 600
                         (new_entry 50 51 ''c'' (Json ''1'') 1 (no_options\<lparr>opt_priority := Some 3\<rparr>)))]
   \<and> set_cache demo_env 50 51
         [(cachePrefix @ ''a'', Parsed 500 (demo_entry 1 100)),
          (cachePrefix @ ''b'', Parsed 10 (demo_entry 2 100))]
         ''c'' (Json ''1'') (no_options\<lparr>opt_priority := Some 3\<rparr>)
       = (Inr True,
          [(cachePrefix @ ''b'', Parsed 10 (demo_entry 2 100)),
           (cachePrefix @ ''c'', Parsed 600
              (new_entry 50 51 ''c'' (Json ''1'') 1 (no_options\<lparr>opt_priority := Some 3\<rparr>)))])
   \<and> 5 * total_bytes
         [(cachePrefix @ ''b'', Parsed 10 (demo_entry 2 100)),
          (cachePrefix @ ''c'', Parsed 600
             (new_entry 50 51 ''c'' (Json ''1'') 1 (no_options\<lparr>opt_priority := Some 3\<rparr>)))]
       \<le> 4 * maxCacheSize demo_env"
proof -
  let ?o = "no_options\<lparr>opt_priority := Some 3\<rparr>"
  let ?e = "new_entry 50 51 ''c'' (Json ''1'') 1 ?o"
  let ?st = "[(cachePrefix @ ''a'', Parsed 500 (demo_entry 1 100)),
              (cachePrefix @ ''b'', Parsed 10 (demo_entry 2 100))]"
  let ?st1 = "[(cachePrefix @ ''a'', Parsed 500 (demo_entry 1 100)),
               (cachePrefix @ ''b'', Parsed 10 (demo_entry 2 100)),
               (cachePrefix @ ''c'', Parsed 600 ?e)]"
  let ?st2 = "[(cachePrefix @ ''b'', Parsed 10 (demo_entry 2 100)),
               (cachePrefix @ ''c'', Parsed 600 ?e)]"
  have ap: "all_parse ?st" by (simp add: all_parse_def)
  have dk: "distinct (map fst ?st)" by simp
  have cs: "calculateSize (Json ''1'') = Inr 1" by (simp add: calculateSize_def)
  have wr: "writeEntry demo_env ?st ''c'' ?e = Inr ?st1"
    by (simp add: writeEntry_def stringify_entry_def setItem_def demo_env_def new_entry_def
        or_obj_def no_options_def)
  have over: "maxCacheSize demo_env < total_bytes ?st1"
    by (simp add: total_bytes_def demo_env_def)
  have "priority (demo_entry 1 100) < priority (demo_entry 2 100)"
    by (simp add: demo_entry_def)
  moreover have "priority (demo_entry 2 100) < priority ?e"
    by (simp add: demo_entry_def new_entry_def or_number_def)
  ultimately have "enforceStorageLimit demo_env ?st1 = ?st2"
    by (rule enforce_three_entries)
  with wr have res: "set_cache demo_env 50 51 ?st ''c'' (Json ''1'') ?o = (Inr True, ?st2)"
    by (simp add: set_cache_def calculateSize_def Let_def)
  from set_over_budget_eviction[OF ap dk cs wr over res] ap over res show ?thesis
    by simp
qed

text \<open>
  When the first write throws and the retry succeeds, \<open>set\<close> returns \<open>true\<close> without
  running \<open>enforceStorageLimit\<close>, and the store can stay above the budget: a persistence
  layer that holds two pairs rejects \<open>B\<close> beside \<open>A\<close> and \<open>C\<close>; the sweep removes \<open>C\<close>
  (priority 20), the retry stores \<open>B\<close>, and 1200 bytes remain against a budget of 1000.
\<close>

lemma set_retry_skips_enforcement:
  "set_cache two_pair_env 50 51
     [(cachePrefix @ ''A'', Parsed 600 (demo_entry 90 100)),
      (cachePrefix @ ''C'', Parsed 600 (demo_entry 20 100))]
     ''B'' (Json ''1'') (no_options\<lparr>opt_priority := Some 60\<rparr>)
   = (Inr True,
      [(cachePrefix @ ''A'', Parsed 600 (demo_entry 90 100)),
       (cachePrefix @ ''B'', Parsed 600
          (new_entry 50 51 ''B'' (Json ''1'') 1 (no_options\<lparr>opt_priority := Some 60\<rparr>)))])
   \<and> maxCacheSize two_pair_env
       < total_bytes
           [(cachePrefix @ ''A'', Parsed 600 (demo_entry 90 100)),
            (cachePrefix @ ''B'', Parsed 600
               (new_entry 50 51 ''B'' (Json ''1'') 1 (no_options\<lparr>opt_priority := Some 60\<rparr>)))]"
proof -
  let ?o = "no_options\<lparr>opt_priority := Some 60\<rparr>"
  let ?e = "new_entry 50 51 ''B'' (Json ''1'') 1 ?o"
  let ?st = "[(cachePrefix @ ''A'', Parsed 600 (demo_entry 90 100)),
              (cachePrefix @ ''C'', Parsed 600 (demo_entry 20 100))]"
  let ?st2 = "[(cachePrefix @ ''A'', Parsed 600 (demo_entry 90 100))]"
  let ?st3 = "[(cachePrefix @ ''A'', Parsed 600 (demo_entry 90 100)),
               (cachePrefix @ ''B'', Parsed 600 ?e)]"
  have s: "stringify_entry two_pair_env ?e = Inr (Parsed 600 ?e)"
    by (simp add: stringify_entry_def new_entry_def or_obj_def no_options_def two_pair_env_def)
  have w1: "writeEntry two_pair_env ?st ''B'' ?e = Inl QuotaExceededError"
    unfolding writeEntry_def s by (simp add: setItem_def two_pair_env_def)
  have ap: "all_parse ?st" by (simp add: all_parse_def)
  have dk: "distinct (map fst ?st)" by simp
  have sweep: "clearLowPriorityCache two_pair_env ?st = ?st2"
    unfolding clearLowPriorityCache_all_parse[OF ap dk]
    by (simp add: low_priority_def demo_entry_def)
  have w2: "writeEntry two_pair_env ?st2 ''B'' ?e = Inr ?st3"
    unfolding writeEntry_def s by (simp add: setItem_def two_pair_env_def)
  have cs: "calculateSize (Json ''1'') = Inr 1" by (simp add: calculateSize_def)
  have r: "set_cache two_pair_env 50 51 ?st ''B'' (Json ''1'') ?o = (Inr True, ?st3)"
    by (simp only: set_cache_def cs sum.case Let_def w1 sweep w2)
  have "maxCacheSize two_pair_env < total_bytes ?st3"
    by (simp add: total_bytes_def two_pair_env_def)
  with r show ?thesis by simp
qed

end
